theory Spec2Isabelle
  imports Main
begin

section \<open>Data model\<close>

text \<open>
  The repository is a typed publish/subscribe core in three classes:
  \<^verbatim>\<open>Subscription<EventType>\<close> (Subscription.hpp), \<^verbatim>\<open>SpecificDispatcher<EventType>\<close> and
  \<^verbatim>\<open>EventDispatcher\<close> (EventDispatcher.hpp). The objects point at each other (a
  subscription holds a raw pointer to its dispatcher, the dispatcher's map is keyed by raw
  pointers to subscriptions), so the model keeps an explicit store: every object lives at an
  address, and a pointer is an address (\<open>None\<close> for \<^verbatim>\<open>nullptr\<close>).

  An event type is its \<^verbatim>\<open>std::type_index\<close>, a number; an event is the payload it
  carries (the \<^verbatim>\<open>value\<close> of \<^verbatim>\<open>SomeEvent\<close> in main.cpp).
\<close>

type_synonym addr = nat

type_synonym type_index = nat

type_synonym event = int

text \<open>
  A callback is a \<^verbatim>\<open>std::function\<close>, arbitrary caller code. The model names it by a
  number and gives its body as the calls it makes back into the library while it runs:
  cancelling a subscription through a pointer it captured, or subscribing another callback
  through the \<^verbatim>\<open>EventDispatcher\<close> it captured (the caller keeps the returned handle
  alive). \<open>Subscribe t q p c\<close> carries the addresses that \<^verbatim>\<open>new\<close> hands out during the
  call: \<open>q\<close> for a \<^verbatim>\<open>SpecificDispatcher\<close>, should one be created, and \<open>p\<close> for the
  \<^verbatim>\<open>Subscription\<close>. A callback that publishes, or that destroys a handle or the
  \<^verbatim>\<open>EventDispatcher\<close>, from inside a dispatch pass is outside the model.
\<close>

datatype callback = Callback (cb_id: nat) (cb_body: "action list")
  and action = Cancel addr | Subscribe type_index addr addr callback

text \<open>The three classes, with the members the source declares.\<close>

record Subscription =
  m_specific_dispatcher :: "addr option"

record SpecificDispatcher =
  m_callbacks :: "(addr \<times> callback) list"

record EventDispatcher =
  m_dispatchers :: "(type_index \<times> addr) list"

text \<open>
  The store. \<open>trace\<close> is the observable behaviour: one entry for every execution of
  \<^verbatim>\<open>callback(event)\<close> in \<^verbatim>\<open>SpecificDispatcher::publish\<close>, giving the map key
  (the subscription), the callback and the event. The single \<^verbatim>\<open>EventDispatcher\<close> of the
  program is \<open>None\<close> once it has been destroyed.
\<close>

type_synonym invocation = "addr \<times> nat \<times> event"

record world =
  subscriptions :: "addr \<rightharpoonup> Subscription"
  dispatchers :: "addr \<rightharpoonup> SpecificDispatcher"
  event_dispatcher :: "EventDispatcher option"
  trace :: "invocation list"

definition init :: world where
  "init = \<lparr>subscriptions = Map.empty, dispatchers = Map.empty,
           event_dispatcher = Some \<lparr>m_dispatchers = []\<rparr>, trace = []\<rparr>"

text \<open>
  Undefined behaviour of the C++ program is a value of the model: a call through a null
  pointer, a use of a destroyed object, and the increment of an iterator whose element has
  been erased. \<open>AddressInUse\<close> is not a behaviour of the program: the addresses returned by
  \<^verbatim>\<open>new\<close> are inputs of the model, and the model rejects an address that is still
  occupied by a live object of the same class.
\<close>

datatype fault = NullDeref | UseAfterFree | InvalidIterator | AddressInUse

section \<open>std::map\<close>

text \<open>
  A \<^verbatim>\<open>std::map\<close> is an association list in ascending key order. \<^verbatim>\<open>insert\<close> keeps an
  existing entry, \<^verbatim>\<open>erase\<close> by key removes the entry if there is one. An iterator is the
  key of the element it points at; it is valid as long as that element is in the map, and
  its increment goes to the next larger key.
\<close>

fun map_insert :: "nat \<Rightarrow> 'v \<Rightarrow> (nat \<times> 'v) list \<Rightarrow> (nat \<times> 'v) list" where
  "map_insert k v [] = [(k, v)]"
| "map_insert k v (e # m) =
     (if k < fst e then (k, v) # e # m
      else if k = fst e then e # m
      else e # map_insert k v m)"

definition map_erase :: "nat \<Rightarrow> (nat \<times> 'v) list \<Rightarrow> (nat \<times> 'v) list" where
  "map_erase k m = filter (\<lambda>e. fst e \<noteq> k) m"

definition map_contains :: "nat \<Rightarrow> (nat \<times> 'v) list \<Rightarrow> bool" where
  "map_contains k m = (k \<in> fst ` set m)"

definition map_begin :: "(nat \<times> 'v) list \<Rightarrow> nat option" where
  "map_begin m = (case m of [] \<Rightarrow> None | e # _ \<Rightarrow> Some (fst e))"

definition map_next :: "nat \<Rightarrow> (nat \<times> 'v) list \<Rightarrow> nat option" where
  "map_next k m = map_option fst (find (\<lambda>e. k < fst e) m)"

section \<open>Subscription and SpecificDispatcher\<close>

text \<open>\<^verbatim>\<open>SpecificDispatcher::unsubscribe\<close>: \<^verbatim>\<open>m_callbacks.erase(subscription)\<close>.\<close>

definition SpecificDispatcher_unsubscribe :: "addr \<Rightarrow> addr \<Rightarrow> world \<Rightarrow> fault + world" where
  "SpecificDispatcher_unsubscribe d s w =
     (case dispatchers w d of
        None \<Rightarrow> Inl UseAfterFree
      | Some sd \<Rightarrow>
          Inr (w\<lparr>dispatchers := (dispatchers w)(d \<mapsto> sd\<lparr>m_callbacks := map_erase s (m_callbacks sd)\<rparr>)\<rparr>))"

text \<open>\<^verbatim>\<open>Subscription::active\<close>: \<^verbatim>\<open>m_specific_dispatcher != nullptr\<close>.\<close>

definition active :: "Subscription \<Rightarrow> bool" where
  "active sub = (m_specific_dispatcher sub \<noteq> None)"

text \<open>
  \<^verbatim>\<open>Subscription::cancel\<close>: calls \<^verbatim>\<open>unsubscribe\<close> through \<^verbatim>\<open>m_specific_dispatcher\<close>, with
  no test of the pointer, then sets the pointer to \<^verbatim>\<open>nullptr\<close>.
\<close>

definition cancel :: "addr \<Rightarrow> world \<Rightarrow> fault + world" where
  "cancel s w =
     (case subscriptions w s of
        None \<Rightarrow> Inl UseAfterFree
      | Some sub \<Rightarrow>
          (case m_specific_dispatcher sub of
             None \<Rightarrow> Inl NullDeref
           | Some d \<Rightarrow>
               (case SpecificDispatcher_unsubscribe d s w of
                  Inl f \<Rightarrow> Inl f
                | Inr w' \<Rightarrow>
                    Inr (w'\<lparr>subscriptions :=
                             (subscriptions w')(s \<mapsto> sub\<lparr>m_specific_dispatcher := None\<rparr>)\<rparr>))))"

text \<open>\<^verbatim>\<open>Subscription::~Subscription\<close>: \<^verbatim>\<open>cancel()\<close>, then the object is gone.\<close>

definition Subscription_destroy :: "addr \<Rightarrow> world \<Rightarrow> fault + world" where
  "Subscription_destroy s w =
     (case cancel s w of
        Inl f \<Rightarrow> Inl f
      | Inr w' \<Rightarrow> Inr (w'\<lparr>subscriptions := (subscriptions w')(s := None)\<rparr>))"

text \<open>
  \<^verbatim>\<open>SpecificDispatcher::subscribe\<close>: a new \<^verbatim>\<open>Subscription\<close> at \<open>p\<close> pointing at this
  dispatcher, and \<^verbatim>\<open>m_callbacks.insert\<close> of the pair.
\<close>

definition SpecificDispatcher_subscribe :: "addr \<Rightarrow> addr \<Rightarrow> callback \<Rightarrow> world \<Rightarrow> fault + world" where
  "SpecificDispatcher_subscribe d p c w =
     (case dispatchers w d of
        None \<Rightarrow> Inl UseAfterFree
      | Some sd \<Rightarrow>
          (if subscriptions w p \<noteq> None then Inl AddressInUse
           else Inr (w\<lparr>subscriptions := (subscriptions w)(p \<mapsto> \<lparr>m_specific_dispatcher = Some d\<rparr>),
                       dispatchers := (dispatchers w)(d \<mapsto> sd\<lparr>m_callbacks := map_insert p c (m_callbacks sd)\<rparr>)\<rparr>)))"

section \<open>EventDispatcher\<close>

text \<open>
  \<^verbatim>\<open>EventDispatcher::dispatcher\<close>: looks the type up in \<^verbatim>\<open>m_dispatchers\<close>; when it is
  not there, creates a \<^verbatim>\<open>SpecificDispatcher\<close> (at \<open>q\<close>) and inserts it. Returns the
  dispatcher's address.
\<close>

definition EventDispatcher_dispatcher :: "type_index \<Rightarrow> addr \<Rightarrow> world \<Rightarrow> fault + (addr \<times> world)" where
  "EventDispatcher_dispatcher t q w =
     (case event_dispatcher w of
        None \<Rightarrow> Inl UseAfterFree
      | Some ed \<Rightarrow>
          (case map_of (m_dispatchers ed) t of
             None \<Rightarrow>
               (if dispatchers w q \<noteq> None then Inl AddressInUse
                else Inr (q, w\<lparr>dispatchers := (dispatchers w)(q \<mapsto> \<lparr>m_callbacks = []\<rparr>),
                               event_dispatcher := Some (ed\<lparr>m_dispatchers := map_insert t q (m_dispatchers ed)\<rparr>)\<rparr>))
           | Some d \<Rightarrow> Inr (d, w)))"

text \<open>\<^verbatim>\<open>EventDispatcher::subscribe\<close>: \<^verbatim>\<open>dispatcher<EventType>().subscribe(callback)\<close>.\<close>

definition EventDispatcher_subscribe :: "type_index \<Rightarrow> addr \<Rightarrow> addr \<Rightarrow> callback \<Rightarrow> world \<Rightarrow> fault + world" where
  "EventDispatcher_subscribe t q p c w =
     (case EventDispatcher_dispatcher t q w of
        Inl f \<Rightarrow> Inl f
      | Inr (d, w') \<Rightarrow> SpecificDispatcher_subscribe d p c w')"

section \<open>Running a callback\<close>

fun do_action :: "action \<Rightarrow> world \<Rightarrow> fault + world" where
  "do_action (Cancel s) w = cancel s w"
| "do_action (Subscribe t q p c) w = EventDispatcher_subscribe t q p c w"

fun run_body :: "action list \<Rightarrow> world \<Rightarrow> fault + world" where
  "run_body [] w = Inr w"
| "run_body (a # as) w =
     (case do_action a w of Inl f \<Rightarrow> Inl f | Inr w' \<Rightarrow> run_body as w')"

text \<open>\<^verbatim>\<open>callback(event)\<close> for the map entry with key \<open>k\<close>.\<close>

definition invoke :: "addr \<Rightarrow> callback \<Rightarrow> event \<Rightarrow> world \<Rightarrow> fault + world" where
  "invoke k c ev w = run_body (cb_body c) (w\<lparr>trace := trace w @ [(k, cb_id c, ev)]\<rparr>)"

section \<open>The dispatch loop\<close>

text \<open>
  \<^verbatim>\<open>SpecificDispatcher::publish\<close> is a range-based \<^verbatim>\<open>for\<close> over \<^verbatim>\<open>m_callbacks\<close>
  itself, not over a copy: the callbacks run while the iterator points into the live map.
  The loop is a recursion on the iterator. That it ends needs an argument, because a
  callback may insert entries above the iterator: the measure is the total size of the
  callbacks at or above it, and a callback can only insert callbacks that are parts of its
  own body.
\<close>

definition wt_ge :: "nat \<Rightarrow> (nat \<times> callback) list \<Rightarrow> nat" where
  "wt_ge k m = sum_list (map (\<lambda>e. size (snd e)) (filter (\<lambda>e. k \<le> fst e) m))"

definition wt_gt :: "nat \<Rightarrow> (nat \<times> callback) list \<Rightarrow> nat" where
  "wt_gt k m = sum_list (map (\<lambda>e. size (snd e)) (filter (\<lambda>e. k < fst e) m))"

lemma wt_gt_insert: "wt_gt k (map_insert p c m) \<le> wt_gt k m + size c"
  by (induction m) (auto simp: wt_gt_def)

lemma wt_gt_erase: "wt_gt k (map_erase s m) \<le> wt_gt k m"
  by (induction m) (auto simp: wt_gt_def map_erase_def)

lemma wt_gt_le_ge: "wt_gt k m \<le> wt_ge k m"
  by (induction m) (auto simp: wt_gt_def wt_ge_def)

lemma wt_ge_member: "(k, c) \<in> set m \<Longrightarrow> wt_gt k m + size c \<le> wt_ge k m"
proof (induction m)
  case Nil
  then show ?case by simp
next
  case (Cons e m)
  show ?case
  proof (cases "e = (k, c)")
    case True
    with wt_gt_le_ge [of k m] show ?thesis by (simp add: wt_gt_def wt_ge_def)
  next
    case False
    with Cons show ?thesis by (auto simp: wt_gt_def wt_ge_def)
  qed
qed

lemma map_next_SomeD: "map_next k m = Some k' \<Longrightarrow> k < k' \<and> map_contains k' m"
  by (induction m) (auto simp: map_next_def map_contains_def split: if_splits)

lemma wt_ge_next: "map_next k m = Some k' \<Longrightarrow> wt_ge k' m \<le> wt_gt k m"
proof -
  assume "map_next k m = Some k'"
  then have "k < k'"
    by (simp add: map_next_SomeD)
  then have "\<And>e. k' \<le> fst e \<Longrightarrow> k < fst e" by simp
  then show ?thesis
    unfolding wt_ge_def wt_gt_def
    by (induction m) auto
qed

lemma callback_size_pos: "size_list size (cb_body c) < size c"
  by (cases c) simp

lemma cancel_pending:
  "cancel s w = Inr w' \<Longrightarrow> dispatchers w d = Some sd \<Longrightarrow>
   \<exists>sd'. dispatchers w' d = Some sd' \<and> wt_gt k (m_callbacks sd') \<le> wt_gt k (m_callbacks sd)"
  by (auto simp: cancel_def SpecificDispatcher_unsubscribe_def wt_gt_erase
      split: option.splits sum.splits)

lemma subscribe_pending:
  "EventDispatcher_subscribe t q p c w = Inr w' \<Longrightarrow> dispatchers w d = Some sd \<Longrightarrow>
   \<exists>sd'. dispatchers w' d = Some sd' \<and> wt_gt k (m_callbacks sd') \<le> wt_gt k (m_callbacks sd) + size c"
  by (auto simp: EventDispatcher_subscribe_def EventDispatcher_dispatcher_def
      SpecificDispatcher_subscribe_def wt_gt_insert
      split: option.splits sum.splits if_splits)

lemma do_action_pending:
  "do_action a w = Inr w' \<Longrightarrow> dispatchers w d = Some sd \<Longrightarrow>
   \<exists>sd'. dispatchers w' d = Some sd' \<and> wt_gt k (m_callbacks sd') \<le> wt_gt k (m_callbacks sd) + size a"
proof (cases a)
  case (Cancel s)
  assume "do_action a w = Inr w'" "dispatchers w d = Some sd"
  with Cancel cancel_pending [of s w w' d sd k] show ?thesis by auto
next
  case (Subscribe t q p c)
  assume "do_action a w = Inr w'" "dispatchers w d = Some sd"
  with Subscribe subscribe_pending [of t q p c w w' d sd k] show ?thesis by auto
qed

lemma run_body_pending:
  "run_body as w = Inr w' \<Longrightarrow> dispatchers w d = Some sd \<Longrightarrow>
   \<exists>sd'. dispatchers w' d = Some sd' \<and> wt_gt k (m_callbacks sd') \<le> wt_gt k (m_callbacks sd) + size_list size as"
proof (induction as arbitrary: w sd)
  case Nil
  then show ?case by simp
next
  case (Cons a as)
  from Cons.prems obtain w1 where a: "do_action a w = Inr w1" and r: "run_body as w1 = Inr w'"
    by (auto split: sum.splits)
  from do_action_pending [OF a Cons.prems(2), of k] obtain sd1 where
    s1: "dispatchers w1 d = Some sd1" "wt_gt k (m_callbacks sd1) \<le> wt_gt k (m_callbacks sd) + size a"
    by blast
  from Cons.IH [OF r s1(1)] obtain sd' where
    "dispatchers w' d = Some sd'" "wt_gt k (m_callbacks sd') \<le> wt_gt k (m_callbacks sd1) + size_list size as"
    by blast
  with s1 show ?case by auto
qed

lemma invoke_pending:
  "invoke k0 c ev w = Inr w' \<Longrightarrow> dispatchers w d = Some sd \<Longrightarrow> dispatchers w' d = Some sd' \<Longrightarrow>
   wt_gt k (m_callbacks sd') < wt_gt k (m_callbacks sd) + size c"
  using run_body_pending [of "cb_body c" "w\<lparr>trace := trace w @ [(k0, cb_id c, ev)]\<rparr>" w' d sd k]
    callback_size_pos [of c]
  by (auto simp: invoke_def)

text \<open>
  One turn of the loop at iterator \<open>k\<close>: \<^verbatim>\<open>callback(event)\<close> on the element, then
  \<^verbatim>\<open>++it\<close>, which is undefined when the callback erased the element.
\<close>

function publish_from :: "addr \<Rightarrow> event \<Rightarrow> addr \<Rightarrow> world \<Rightarrow> fault + world" where
  "publish_from d ev k w =
     (case dispatchers w d of
        None \<Rightarrow> Inl UseAfterFree
      | Some sd \<Rightarrow>
          (case map_of (m_callbacks sd) k of
             None \<Rightarrow> Inl InvalidIterator
           | Some c \<Rightarrow>
               (case invoke k c ev w of
                  Inl f \<Rightarrow> Inl f
                | Inr w' \<Rightarrow>
                    (case dispatchers w' d of
                       None \<Rightarrow> Inl UseAfterFree
                     | Some sd' \<Rightarrow>
                         (if \<not> map_contains k (m_callbacks sd') then Inl InvalidIterator
                          else (case map_next k (m_callbacks sd') of
                                  None \<Rightarrow> Inr w'
                                | Some k' \<Rightarrow> publish_from d ev k' w'))))))"
  by pat_completeness auto
termination
proof (relation "measure (\<lambda>(d, ev, k, w). case dispatchers w d of None \<Rightarrow> 0 | Some sd \<Rightarrow> wt_ge k (m_callbacks sd))")
  show "wf (measure (\<lambda>(d, ev, k, w). case dispatchers w d of None \<Rightarrow> 0 | Some sd \<Rightarrow> wt_ge k (m_callbacks sd)))"
    by simp
next
  fix d ev k w sd c w' sd' k'
  assume a: "dispatchers w d = Some sd" "map_of (m_callbacks sd) k = Some c"
    "invoke k c ev w = Inr w'" "dispatchers w' d = Some sd'"
    "map_next k (m_callbacks sd') = Some k'"
  have "wt_ge k' (m_callbacks sd') \<le> wt_gt k (m_callbacks sd')"
    using a(5) by (rule wt_ge_next)
  also have "\<dots> < wt_gt k (m_callbacks sd) + size c"
    using a(3) a(1) a(4) by (rule invoke_pending)
  also have "\<dots> \<le> wt_ge k (m_callbacks sd)"
    using a(2) by (intro wt_ge_member map_of_SomeD)
  finally show "((d, ev, k', w'), d, ev, k, w)
       \<in> measure (\<lambda>(d, ev, k, w). case dispatchers w d of None \<Rightarrow> 0 | Some sd \<Rightarrow> wt_ge k (m_callbacks sd))"
    using a by simp
qed

text \<open>\<^verbatim>\<open>SpecificDispatcher::publish\<close>: the loop from \<^verbatim>\<open>m_callbacks.begin()\<close>.\<close>

definition SpecificDispatcher_publish :: "addr \<Rightarrow> event \<Rightarrow> world \<Rightarrow> fault + world" where
  "SpecificDispatcher_publish d ev w =
     (case dispatchers w d of
        None \<Rightarrow> Inl UseAfterFree
      | Some sd \<Rightarrow>
          (case map_begin (m_callbacks sd) of
             None \<Rightarrow> Inr w
           | Some k \<Rightarrow> publish_from d ev k w))"

text \<open>\<^verbatim>\<open>EventDispatcher::publish\<close>: \<^verbatim>\<open>dispatcher<EventType>().publish(event)\<close>.\<close>

definition EventDispatcher_publish :: "type_index \<Rightarrow> addr \<Rightarrow> event \<Rightarrow> world \<Rightarrow> fault + world" where
  "EventDispatcher_publish t q ev w =
     (case EventDispatcher_dispatcher t q w of
        Inl f \<Rightarrow> Inl f
      | Inr (d, w') \<Rightarrow> SpecificDispatcher_publish d ev w')"

section \<open>Destruction\<close>

text \<open>
  \<^verbatim>\<open>SpecificDispatcher::~SpecificDispatcher\<close> is a range-based \<^verbatim>\<open>for\<close> over
  \<^verbatim>\<open>m_callbacks\<close> that calls \<^verbatim>\<open>cancel()\<close> on every key; \<^verbatim>\<open>cancel\<close> calls back
  into \<^verbatim>\<open>unsubscribe\<close>, which erases from the map under the iterator.
\<close>

lemma cancel_keeps_map:
  "cancel k w = Inr w' \<Longrightarrow> dispatchers w' d = Some sd' \<Longrightarrow> map_contains k (m_callbacks sd') \<Longrightarrow>
   dispatchers w d = Some sd'"
  by (auto simp: cancel_def SpecificDispatcher_unsubscribe_def map_contains_def map_erase_def
      split: option.splits sum.splits if_splits)

function destroy_from :: "addr \<Rightarrow> addr \<Rightarrow> world \<Rightarrow> fault + world" where
  "destroy_from d k w =
     (case cancel k w of
        Inl f \<Rightarrow> Inl f
      | Inr w' \<Rightarrow>
          (case dispatchers w' d of
             None \<Rightarrow> Inl UseAfterFree
           | Some sd' \<Rightarrow>
               (if \<not> map_contains k (m_callbacks sd') then Inl InvalidIterator
                else (case map_next k (m_callbacks sd') of
                        None \<Rightarrow> Inr w'
                      | Some k' \<Rightarrow> destroy_from d k' w'))))"
  by pat_completeness auto
termination
proof (relation "measure (\<lambda>(d, k, w). case dispatchers w d of None \<Rightarrow> 0 | Some sd \<Rightarrow> wt_ge k (m_callbacks sd))")
  show "wf (measure (\<lambda>(d, k, w). case dispatchers w d of None \<Rightarrow> 0 | Some sd \<Rightarrow> wt_ge k (m_callbacks sd)))"
    by simp
next
  fix d k w w' sd' k'
  assume a: "cancel k w = Inr w'" "dispatchers w' d = Some sd'"
    "\<not> \<not> map_contains k (m_callbacks sd')" "map_next k (m_callbacks sd') = Some k'"
  from a have same: "dispatchers w d = Some sd'"
    by (auto intro: cancel_keeps_map)
  from a(3) obtain c where c: "(k, c) \<in> set (m_callbacks sd')"
    by (auto simp: map_contains_def)
  have "0 < size c" by (cases c) simp
  moreover have "wt_ge k' (m_callbacks sd') \<le> wt_gt k (m_callbacks sd')"
    using a(4) by (rule wt_ge_next)
  moreover note wt_ge_member [OF c]
  ultimately show "((d, k', w'), d, k, w)
       \<in> measure (\<lambda>(d, k, w). case dispatchers w d of None \<Rightarrow> 0 | Some sd \<Rightarrow> wt_ge k (m_callbacks sd))"
    using a same by simp
qed

definition SpecificDispatcher_destroy :: "addr \<Rightarrow> world \<Rightarrow> fault + world" where
  "SpecificDispatcher_destroy d w =
     (case dispatchers w d of
        None \<Rightarrow> Inl UseAfterFree
      | Some sd \<Rightarrow>
          (case map_begin (m_callbacks sd) of
             None \<Rightarrow> Inr (w\<lparr>dispatchers := (dispatchers w)(d := None)\<rparr>)
           | Some k \<Rightarrow>
               (case destroy_from d k w of
                  Inl f \<Rightarrow> Inl f
                | Inr w' \<Rightarrow> Inr (w'\<lparr>dispatchers := (dispatchers w')(d := None)\<rparr>))))"

text \<open>
  \<^verbatim>\<open>EventDispatcher::~EventDispatcher\<close> is defaulted: it destroys \<^verbatim>\<open>m_dispatchers\<close>,
  whose \<^verbatim>\<open>unique_ptr\<close>s destroy every \<^verbatim>\<open>SpecificDispatcher\<close> (taken here in key
  order).
\<close>

fun destroy_all :: "addr list \<Rightarrow> world \<Rightarrow> fault + world" where
  "destroy_all [] w = Inr w"
| "destroy_all (d # ds) w =
     (case SpecificDispatcher_destroy d w of Inl f \<Rightarrow> Inl f | Inr w' \<Rightarrow> destroy_all ds w')"

definition EventDispatcher_destroy :: "world \<Rightarrow> fault + world" where
  "EventDispatcher_destroy w =
     (case event_dispatcher w of
        None \<Rightarrow> Inl UseAfterFree
      | Some ed \<Rightarrow>
          (case destroy_all (map snd (m_dispatchers ed)) w of
             Inl f \<Rightarrow> Inl f
           | Inr w' \<Rightarrow> Inr (w'\<lparr>event_dispatcher := None\<rparr>)))"

section \<open>Programs\<close>

text \<open>
  The caller's program is a list of calls on the library: what a callback can do
  (\<open>Do\<close>), publishing an event, letting a subscription handle go out of scope, and
  destroying the \<^verbatim>\<open>EventDispatcher\<close>. It stops at the first fault.
\<close>

datatype command =
    Do action
  | Publish type_index addr event
  | Destroy addr
  | Teardown

fun step :: "command \<Rightarrow> world \<Rightarrow> fault + world" where
  "step (Do a) w = do_action a w"
| "step (Publish t q ev) w = EventDispatcher_publish t q ev w"
| "step (Destroy s) w = Subscription_destroy s w"
| "step Teardown w = EventDispatcher_destroy w"

fun exec :: "command list \<Rightarrow> world \<Rightarrow> fault + world" where
  "exec [] w = Inr w"
| "exec (c # cs) w = (case step c w of Inl f \<Rightarrow> Inl f | Inr w' \<Rightarrow> exec cs w')"

text \<open>What an observer sees of a run: the fault, or the callbacks invoked.\<close>

definition observed :: "fault + world \<Rightarrow> fault + invocation list" where
  "observed r = (case r of Inl f \<Rightarrow> Inl f | Inr w \<Rightarrow> Inr (trace w))"

declare publish_from.simps [simp del]

declare destroy_from.simps [simp del]

lemmas model_defs =
  init_def observed_def map_erase_def map_contains_def map_begin_def map_next_def
  SpecificDispatcher_unsubscribe_def active_def cancel_def Subscription_destroy_def
  SpecificDispatcher_subscribe_def EventDispatcher_dispatcher_def EventDispatcher_subscribe_def
  invoke_def SpecificDispatcher_publish_def EventDispatcher_publish_def
  SpecificDispatcher_destroy_def EventDispatcher_destroy_def

section \<open>The vocabulary of the properties\<close>

text \<open>
  The properties below speak of the following. The channel of a type is the dispatcher that
  \<^verbatim>\<open>m_dispatchers\<close> maps the type to. A callback is quiet when it makes no call back into
  the library. \<open>deliveries ev m\<close> is one invocation with event \<open>ev\<close> for every entry of the
  map \<open>m\<close>, in the order of the map. \<open>invocations_of s tr\<close> are the invocations in
  \<open>tr\<close> made through handle \<open>s\<close>, and \<open>added w w'\<close> is what the trace of \<open>w'\<close> has
  beyond the length of the trace of \<open>w\<close>.
\<close>

definition channel_of :: "type_index \<Rightarrow> world \<Rightarrow> addr option" where
  "channel_of t w = (case event_dispatcher w of None \<Rightarrow> None | Some ed \<Rightarrow> map_of (m_dispatchers ed) t)"

definition quiet :: "callback \<Rightarrow> bool" where
  "quiet c = (cb_body c = [])"

definition deliveries :: "event \<Rightarrow> (addr \<times> callback) list \<Rightarrow> invocation list" where
  "deliveries ev m = map (\<lambda>e. (fst e, cb_id (snd e), ev)) m"

definition invocations_of :: "addr \<Rightarrow> invocation list \<Rightarrow> invocation list" where
  "invocations_of s tr = filter (\<lambda>i. fst i = s) tr"

definition added :: "world \<Rightarrow> world \<Rightarrow> invocation list" where
  "added w w' = drop (length (trace w)) (trace w')"

text \<open>
  Handle \<open>s\<close> is registered in dispatcher \<open>d\<close> when the map of \<open>d\<close> has the key
  \<open>s\<close>; \<open>entry\<close> names the callback stored under it. A handle is cancelled when the
  object exists and its pointer is \<^verbatim>\<open>nullptr\<close>.
\<close>

definition entry :: "addr \<Rightarrow> addr \<Rightarrow> callback \<Rightarrow> world \<Rightarrow> bool" where
  "entry d s c w \<longleftrightarrow> (\<exists>sd. dispatchers w d = Some sd \<and> map_of (m_callbacks sd) s = Some c)"

definition registered :: "addr \<Rightarrow> addr \<Rightarrow> world \<Rightarrow> bool" where
  "registered d s w \<longleftrightarrow> (\<exists>sd. dispatchers w d = Some sd \<and> map_contains s (m_callbacks sd))"

definition cancelled :: "addr \<Rightarrow> world \<Rightarrow> bool" where
  "cancelled s w \<longleftrightarrow> (\<exists>sub. subscriptions w s = Some sub \<and> m_specific_dispatcher sub = None)"

text \<open>The invocations added to the trace since \<open>w0\<close> leave handle \<open>s\<close> out.\<close>

definition silent_since :: "world \<Rightarrow> addr \<Rightarrow> world \<Rightarrow> bool" where
  "silent_since w0 s w \<longleftrightarrow> (\<exists>tr. trace w = trace w0 @ tr \<and> s \<notin> fst ` set tr)"

text \<open>
  The handles a callback can cancel are those of the \<open>Cancel\<close> actions in its body and in the
  bodies of the callbacks it subscribes. No registered callback cancels \<open>s\<close> when \<open>s\<close> is
  among the handles of none of the callbacks in the maps; a call of the caller spares \<open>s\<close>
  when it neither cancels nor destroys \<open>s\<close>, and subscribes no callback that can cancel it.
  Together they say that \<^verbatim>\<open>cancel()\<close> is not called on \<open>s\<close>.
\<close>

primrec cancels_of :: "callback \<Rightarrow> addr set"
  and cancels_of_action :: "action \<Rightarrow> addr set" where
  "cancels_of (Callback n as) = \<Union> (set (map cancels_of_action as))"
| "cancels_of_action (Cancel h) = {h}"
| "cancels_of_action (Subscribe t q p c) = cancels_of c"

definition never_cancels :: "addr \<Rightarrow> world \<Rightarrow> bool" where
  "never_cancels s w \<longleftrightarrow>
     (\<forall>d sd k c. dispatchers w d = Some sd \<longrightarrow> (k, c) \<in> set (m_callbacks sd) \<longrightarrow> s \<notin> cancels_of c)"

fun spares :: "addr \<Rightarrow> command \<Rightarrow> bool" where
  "spares s (Do a) = (s \<notin> cancels_of_action a)"
| "spares s (Publish t q ev) = True"
| "spares s (Destroy h) = (h \<noteq> s)"
| "spares s Teardown = True"

section \<open>Invariants\<close>

text \<open>
  The two sides of the back-reference agree in every state a program reaches without a
  fault: a subscription that points at a dispatcher is a key of the map of that dispatcher,
  which exists; every key of a map is a live subscription that points back at the map's
  dispatcher; and the maps are in ascending key order.
\<close>

definition consistent :: "world \<Rightarrow> bool" where
  "consistent w \<longleftrightarrow>
     (\<forall>s sub d. subscriptions w s = Some sub \<longrightarrow> m_specific_dispatcher sub = Some d \<longrightarrow>
        (\<exists>sd. dispatchers w d = Some sd \<and> map_contains s (m_callbacks sd)))
   \<and> (\<forall>d sd s. dispatchers w d = Some sd \<longrightarrow> map_contains s (m_callbacks sd) \<longrightarrow>
        (\<exists>sub. subscriptions w s = Some sub \<and> m_specific_dispatcher sub = Some d))
   \<and> (\<forall>d sd. dispatchers w d = Some sd \<longrightarrow> sorted_wrt (<) (map fst (m_callbacks sd)))"

text \<open>
  The \<^verbatim>\<open>EventDispatcher\<close> owns the dispatchers: the dispatchers that exist are those in
  \<^verbatim>\<open>m_dispatchers\<close>, each once, and none exists after the \<^verbatim>\<open>EventDispatcher\<close>.
\<close>

definition registry_wf :: "world \<Rightarrow> bool" where
  "registry_wf w \<longleftrightarrow>
     (event_dispatcher w = None \<longrightarrow> dom (dispatchers w) = {})
   \<and> (\<forall>ed. event_dispatcher w = Some ed \<longrightarrow>
          distinct (map snd (m_dispatchers ed)) \<and> dom (dispatchers w) = snd ` set (m_dispatchers ed))"

text \<open>
  Three predicates that the proofs carry along a run: the type \<open>t\<close> is mapped to the live
  dispatcher \<open>d\<close>; the handle \<open>s\<close> is cancelled and nothing has been delivered to it since
  \<open>w0\<close>; nothing has been delivered through the address \<open>s\<close> since \<open>w0\<close> for as long as
  no subscription is allocated there.
\<close>

definition holds_channel :: "type_index \<Rightarrow> addr \<Rightarrow> world \<Rightarrow> bool" where
  "holds_channel t d w \<longleftrightarrow> channel_of t w = Some d \<and> dispatchers w d \<noteq> None"

definition muted :: "world \<Rightarrow> addr \<Rightarrow> world \<Rightarrow> bool" where
  "muted w0 s w \<longleftrightarrow> consistent w \<and> cancelled s w \<and> silent_since w0 s w"

definition unheard :: "world \<Rightarrow> addr \<Rightarrow> world \<Rightarrow> bool" where
  "unheard w0 s w \<longleftrightarrow> consistent w \<and> (subscriptions w s = None \<longrightarrow> silent_since w0 s w)
     \<and> (\<exists>tr. trace w = trace w0 @ tr)"

section \<open>Example states\<close>

text \<open>
  Concrete states, used to run the theorems on. All have the one event type 0, whose
  dispatcher is at address 0; \<open>Callback n []\<close> is a quiet callback, as the lambda of
  main.cpp is, and \<open>canceller\<close> is a callback that cancels the subscription at address 2.
  \<open>three_deliveries\<close>, \<open>after_scope\<close> are the states of main.cpp after its three
  publishes and after its inner scope. \<open>recruiter\<close> is a callback that subscribes a quiet
  callback at address 2, and the callback of \<open>selfish\<close> cancels its own subscription.
  \<open>torn_down\<close> is the state after the \<^verbatim>\<open>EventDispatcher\<close> is destroyed with one
  handle left, cancelled before.
\<close>

definition one_subscriber :: world where
  "one_subscriber =
     \<lparr>subscriptions = [1 \<mapsto> \<lparr>m_specific_dispatcher = Some 0\<rparr>],
      dispatchers = [0 \<mapsto> \<lparr>m_callbacks = [(1, Callback 1 [])]\<rparr>],
      event_dispatcher = Some \<lparr>m_dispatchers = [(0, 0)]\<rparr>, trace = []\<rparr>"

definition twice_subscribed :: world where
  "twice_subscribed =
     \<lparr>subscriptions = [1 \<mapsto> \<lparr>m_specific_dispatcher = Some 0\<rparr>, 2 \<mapsto> \<lparr>m_specific_dispatcher = Some 0\<rparr>],
      dispatchers = [0 \<mapsto> \<lparr>m_callbacks = [(1, Callback 1 []), (2, Callback 1 [])]\<rparr>],
      event_dispatcher = Some \<lparr>m_dispatchers = [(0, 0)]\<rparr>, trace = []\<rparr>"

definition first_channel :: world where
  "first_channel =
     \<lparr>subscriptions = Map.empty, dispatchers = [0 \<mapsto> \<lparr>m_callbacks = []\<rparr>],
      event_dispatcher = Some \<lparr>m_dispatchers = [(0, 0)]\<rparr>, trace = []\<rparr>"

definition one_delivery :: world where
  "one_delivery =
     \<lparr>subscriptions = [1 \<mapsto> \<lparr>m_specific_dispatcher = Some 0\<rparr>],
      dispatchers = [0 \<mapsto> \<lparr>m_callbacks = [(1, Callback 1 [])]\<rparr>],
      event_dispatcher = Some \<lparr>m_dispatchers = [(0, 0)]\<rparr>, trace = [(1, 1, 7)]\<rparr>"

definition three_deliveries :: world where
  "three_deliveries = one_subscriber\<lparr>trace := [(1, 1, 0), (1, 1, 1), (1, 1, 2)]\<rparr>"

definition after_cancel :: world where
  "after_cancel =
     \<lparr>subscriptions = [1 \<mapsto> \<lparr>m_specific_dispatcher = None\<rparr>],
      dispatchers = [0 \<mapsto> \<lparr>m_callbacks = []\<rparr>],
      event_dispatcher = Some \<lparr>m_dispatchers = [(0, 0)]\<rparr>, trace = [(1, 1, 0), (1, 1, 1), (1, 1, 2)]\<rparr>"

definition after_scope :: world where
  "after_scope =
     \<lparr>subscriptions = Map.empty,
      dispatchers = [0 \<mapsto> \<lparr>m_callbacks = []\<rparr>],
      event_dispatcher = Some \<lparr>m_dispatchers = [(0, 0)]\<rparr>, trace = [(1, 1, 0), (1, 1, 1), (1, 1, 2)]\<rparr>"

definition second_handle :: world where
  "second_handle =
     \<lparr>subscriptions = [1 \<mapsto> \<lparr>m_specific_dispatcher = Some 0\<rparr>, 2 \<mapsto> \<lparr>m_specific_dispatcher = Some 0\<rparr>],
      dispatchers = [0 \<mapsto> \<lparr>m_callbacks = [(1, Callback 1 []), (2, Callback 2 [])]\<rparr>],
      event_dispatcher = Some \<lparr>m_dispatchers = [(0, 0)]\<rparr>, trace = [(1, 1, 0), (1, 1, 1), (1, 1, 2)]\<rparr>"

definition canceller :: callback where
  "canceller = Callback 1 [Cancel 2]"

definition busy :: world where
  "busy =
     \<lparr>subscriptions = [1 \<mapsto> \<lparr>m_specific_dispatcher = Some 0\<rparr>, 2 \<mapsto> \<lparr>m_specific_dispatcher = Some 0\<rparr>,
                       3 \<mapsto> \<lparr>m_specific_dispatcher = Some 0\<rparr>],
      dispatchers = [0 \<mapsto> \<lparr>m_callbacks = [(1, canceller), (2, Callback 2 []), (3, Callback 3 [])]\<rparr>],
      event_dispatcher = Some \<lparr>m_dispatchers = [(0, 0)]\<rparr>, trace = []\<rparr>"

definition after_pass :: world where
  "after_pass =
     \<lparr>subscriptions = [1 \<mapsto> \<lparr>m_specific_dispatcher = Some 0\<rparr>, 2 \<mapsto> \<lparr>m_specific_dispatcher = None\<rparr>,
                       3 \<mapsto> \<lparr>m_specific_dispatcher = Some 0\<rparr>],
      dispatchers = [0 \<mapsto> \<lparr>m_callbacks = [(1, canceller), (3, Callback 3 [])]\<rparr>],
      event_dispatcher = Some \<lparr>m_dispatchers = [(0, 0)]\<rparr>, trace = [(1, 1, 7), (3, 3, 7)]\<rparr>"

definition after_second_pass :: world where
  "after_second_pass =
     \<lparr>subscriptions = [1 \<mapsto> \<lparr>m_specific_dispatcher = None\<rparr>, 2 \<mapsto> \<lparr>m_specific_dispatcher = None\<rparr>,
                       3 \<mapsto> \<lparr>m_specific_dispatcher = Some 0\<rparr>],
      dispatchers = [0 \<mapsto> \<lparr>m_callbacks = [(3, Callback 3 [])]\<rparr>],
      event_dispatcher = Some \<lparr>m_dispatchers = [(0, 0)]\<rparr>, trace = [(1, 1, 7), (3, 3, 7), (3, 3, 8)]\<rparr>"

definition after_third_pass :: world where
  "after_third_pass = after_second_pass\<lparr>trace := [(1, 1, 7), (3, 3, 7), (3, 3, 8), (3, 3, 9)]\<rparr>"

definition after_fourth_pass :: world where
  "after_fourth_pass = after_second_pass\<lparr>trace := [(1, 1, 7), (3, 3, 7), (3, 3, 8), (3, 3, 9), (3, 3, 10)]\<rparr>"

definition recruiter :: callback where
  "recruiter = Callback 1 [Subscribe 0 0 2 (Callback 2 [])]"

definition hiring :: world where
  "hiring =
     \<lparr>subscriptions = [1 \<mapsto> \<lparr>m_specific_dispatcher = Some 0\<rparr>, 3 \<mapsto> \<lparr>m_specific_dispatcher = Some 0\<rparr>],
      dispatchers = [0 \<mapsto> \<lparr>m_callbacks = [(1, recruiter), (3, Callback 3 [])]\<rparr>],
      event_dispatcher = Some \<lparr>m_dispatchers = [(0, 0)]\<rparr>, trace = []\<rparr>"

definition selfish :: world where
  "selfish =
     \<lparr>subscriptions = [1 \<mapsto> \<lparr>m_specific_dispatcher = Some 0\<rparr>],
      dispatchers = [0 \<mapsto> \<lparr>m_callbacks = [(1, Callback 1 [Cancel 1])]\<rparr>],
      event_dispatcher = Some \<lparr>m_dispatchers = [(0, 0)]\<rparr>, trace = []\<rparr>"

definition after_more :: world where
  "after_more =
     \<lparr>subscriptions = [1 \<mapsto> \<lparr>m_specific_dispatcher = Some 0\<rparr>, 2 \<mapsto> \<lparr>m_specific_dispatcher = None\<rparr>],
      dispatchers = [0 \<mapsto> \<lparr>m_callbacks = [(1, Callback 1 [])]\<rparr>],
      event_dispatcher = Some \<lparr>m_dispatchers = [(0, 0)]\<rparr>,
      trace = [(1, 1, 0), (1, 1, 1), (1, 1, 2), (1, 1, 3), (1, 1, 4), (2, 2, 4)]\<rparr>"

definition torn_down :: world where
  "torn_down =
     \<lparr>subscriptions = [1 \<mapsto> \<lparr>m_specific_dispatcher = None\<rparr>], dispatchers = Map.empty,
      event_dispatcher = None, trace = []\<rparr>"

section \<open>Facts about the map\<close>

text \<open>Insertion and erasure keep the order, and change the keys as \<^verbatim>\<open>std::map\<close> does.\<close>

lemma keys_map_insert: "fst ` set (map_insert k v m) = insert k (fst ` set m)"
  by (induction m) auto

lemma in_map_insert: "(a, b) \<in> set (map_insert k v m) \<Longrightarrow> a = k \<or> (a, b) \<in> set m"
  by (induction m) (auto split: if_splits)

lemma sorted_map_insert:
  "sorted_wrt (<) (map fst m) \<Longrightarrow> sorted_wrt (<) (map fst (map_insert k v m))"
proof (induction m)
  case Nil
  then show ?case by simp
next
  case (Cons e m)
  then show ?case by (auto dest: in_map_insert)
qed

lemma map_contains_insert: "map_contains x (map_insert k v m) \<longleftrightarrow> x = k \<or> map_contains x m"
  by (auto simp: map_contains_def keys_map_insert)

lemma map_contains_erase: "map_contains x (map_erase k m) \<longleftrightarrow> x \<noteq> k \<and> map_contains x m"
  by (auto simp: map_contains_def map_erase_def)

lemma sorted_map_erase:
  "sorted_wrt (<) (map fst m) \<Longrightarrow> sorted_wrt (<) (map fst (map_erase k m))"
  by (induction m) (auto simp: map_erase_def)

lemma map_of_map_insert_new:
  "map_of m k = None \<Longrightarrow> map_of (map_insert k v m) = (map_of m)(k \<mapsto> v)"
  by (induction m) (auto simp: fun_upd_twist split: if_splits)

lemma map_of_map_insert_other: "k \<noteq> p \<Longrightarrow> map_of (map_insert p c m) k = map_of m k"
  by (induction m) auto

lemma map_of_map_erase: "map_of (map_erase s m) k = (if k = s then None else map_of m k)"
  by (induction m) (auto simp: map_erase_def)

lemma set_map_insert_new: "map_of m k = None \<Longrightarrow> set (map_insert k v m) = insert (k, v) (set m)"
  by (induction m) (auto split: if_splits)

lemma distinct_snd_map_insert:
  "map_of m k = None \<Longrightarrow> v \<notin> snd ` set m \<Longrightarrow> distinct (map snd m) \<Longrightarrow>
   distinct (map snd (map_insert k v m))"
proof (induction m)
  case Nil
  then show ?case by simp
next
  case (Cons e m)
  from Cons.prems(1) have k: "k \<noteq> fst e" "map_of m k = None"
    by (auto split: if_splits)
  from Cons.prems(2) have v: "v \<noteq> snd e" "v \<notin> snd ` set m" by auto
  have "snd e \<notin> snd ` set (map_insert k v m)"
    using Cons.prems(3) v(1) by (auto simp: set_map_insert_new [OF k(2)])
  with Cons.IH [OF k(2) v(2)] Cons.prems show ?case
    by (auto simp: k(1))
qed

lemma find_app: "find P (xs @ ys) = (case find P xs of None \<Rightarrow> find P ys | Some x \<Rightarrow> Some x)"
  by (induction xs) auto

lemma map_of_mid:
  "sorted_wrt (<) (map fst (pre @ (k::nat, c) # post)) \<Longrightarrow> map_of (pre @ (k, c) # post) k = Some c"
proof -
  assume "sorted_wrt (<) (map fst (pre @ (k, c) # post))"
  then have "\<forall>x \<in> set (map fst pre). x < k"
    by (simp add: sorted_wrt_append)
  then have "k \<notin> fst ` set pre"
    by force
  then have "map_of pre k = None"
    by (simp add: map_of_eq_None_iff)
  then show ?thesis
    by (simp add: map_add_def)
qed

lemma map_next_mid:
  "sorted_wrt (<) (map fst (pre @ (k, c) # post)) \<Longrightarrow> map_next k (pre @ (k, c) # post) = map_begin post"
proof -
  assume s: "sorted_wrt (<) (map fst (pre @ (k, c) # post))"
  then have "\<forall>e \<in> set pre. \<not> k < fst e"
    by (fastforce simp: sorted_wrt_append)
  then have "find (\<lambda>e. k < fst e) pre = None"
    unfolding find_None_iff by blast
  moreover from s have "\<forall>e \<in> set post. k < fst e"
    by (auto simp: sorted_wrt_append)
  then have "find (\<lambda>e. k < fst e) post = (case post of [] \<Rightarrow> None | e # _ \<Rightarrow> Some e)"
    by (cases post) auto
  ultimately show ?thesis
    by (auto simp: map_next_def map_begin_def find_app split: list.splits)
qed

lemma map_next_least:
  "sorted_wrt (<) (map fst m) \<Longrightarrow> map_contains s m \<Longrightarrow> k < s \<Longrightarrow>
   \<exists>k'. map_next k m = Some k' \<and> k' \<le> s"
proof (induction m)
  case Nil
  then show ?case by (simp add: map_contains_def)
next
  case (Cons e m)
  show ?case
  proof (cases "k < fst e")
    case True
    with Cons.prems show ?thesis
      by (auto simp: map_next_def map_contains_def)
  next
    case False
    with Cons.prems have "map_contains s m"
      by (auto simp: map_contains_def)
    with Cons.IH Cons.prems False show ?thesis
      by (auto simp: map_next_def)
  qed
qed

lemma map_erase_absent: "\<not> map_contains h m \<Longrightarrow> map_erase h m = m"
  by (induction m) (auto simp: map_erase_def map_contains_def)

lemma map_insert_before:
  "p < k \<Longrightarrow> map_insert p v (pre @ (k, c) # post) = map_insert p v pre @ (k, c) # post"
  by (induction pre) auto

lemma map_insert_after:
  "k < p \<Longrightarrow> \<forall>e \<in> set pre. fst e < k \<Longrightarrow>
   map_insert p v (pre @ (k, c) # post) = pre @ (k, c) # map_insert p v post"
  by (induction pre) auto

lemma set_map_insert_subset: "set (map_insert k v m) \<subseteq> insert (k, v) (set m)"
  by (induction m) auto

lemma sorted_mid_below:
  "sorted_wrt (<) (map fst (pre @ (k::nat, c) # post)) \<Longrightarrow> \<forall>e \<in> set pre. fst e < k"
  by (auto simp: sorted_wrt_append)

section \<open>What a callback body, a dispatch loop and a program preserve\<close>

text \<open>
  What every action preserves, a callback body preserves; what every invocation of a
  registered callback preserves, a dispatch loop preserves; what every call preserves, a
  program preserves.
\<close>

lemma exec_append:
  "exec (cs @ cs') w = (case exec cs w of Inl f \<Rightarrow> Inl f | Inr w' \<Rightarrow> exec cs' w')"
  by (induction cs arbitrary: w) (auto split: sum.splits)

lemma run_body_preserves:
  assumes "\<And>a w w'. P w \<Longrightarrow> do_action a w = Inr w' \<Longrightarrow> P w'"
  shows "P w \<Longrightarrow> run_body as w = Inr w' \<Longrightarrow> P w'"
proof (induction as arbitrary: w)
  case Nil
  then show ?case by simp
next
  case (Cons a as)
  from Cons.prems(2) obtain w1 where "do_action a w = Inr w1" "run_body as w1 = Inr w'"
    by (auto split: sum.splits)
  with Cons.prems(1) assms Cons.IH show ?case by blast
qed

lemma publish_from_preserves:
  assumes "\<And>d ev k c w w' sd. P w \<Longrightarrow> dispatchers w d = Some sd \<Longrightarrow> map_of (m_callbacks sd) k = Some c \<Longrightarrow>
             invoke k c ev w = Inr w' \<Longrightarrow> P w'"
  shows "P w \<Longrightarrow> publish_from d ev k w = Inr w' \<Longrightarrow> P w'"
proof (induction d ev k w rule: publish_from.induct)
  case (1 d ev k w)
  from "1.prems"(2) obtain sd c w1 sd1 where
    s: "dispatchers w d = Some sd" "map_of (m_callbacks sd) k = Some c"
      "invoke k c ev w = Inr w1" "dispatchers w1 d = Some sd1"
      "map_contains k (m_callbacks sd1)"
    and r: "(case map_next k (m_callbacks sd1) of None \<Rightarrow> Inr w1 | Some k' \<Rightarrow> publish_from d ev k' w1) = Inr w'"
    by (subst (asm) publish_from.simps) (auto split: option.splits sum.splits if_splits)
  have p1: "P w1"
    using assms [OF "1.prems"(1) s(1) s(2) s(3)] .
  show ?case
  proof (cases "map_next k (m_callbacks sd1)")
    case None
    with r p1 show ?thesis by simp
  next
    case (Some k')
    with r have "publish_from d ev k' w1 = Inr w'" by simp
    with "1.IH" [OF s(1) s(2) s(3) s(4) _ Some p1] s(5) show ?thesis by simp
  qed
qed

lemma SpecificDispatcher_publish_preserves:
  assumes "\<And>d ev k c w w' sd. P w \<Longrightarrow> dispatchers w d = Some sd \<Longrightarrow> map_of (m_callbacks sd) k = Some c \<Longrightarrow>
             invoke k c ev w = Inr w' \<Longrightarrow> P w'"
  shows "P w \<Longrightarrow> SpecificDispatcher_publish d ev w = Inr w' \<Longrightarrow> P w'"
proof -
  assume p: "P w" and r: "SpecificDispatcher_publish d ev w = Inr w'"
  show ?thesis
  proof (cases "w' = w")
    case True
    with p show ?thesis by simp
  next
    case False
    with r obtain k where "publish_from d ev k w = Inr w'"
      by (auto simp: SpecificDispatcher_publish_def split: option.splits)
    with p show ?thesis
      by (rule publish_from_preserves [where P = P, rotated 1]) (rule assms)
  qed
qed

lemma exec_preserves:
  assumes "\<And>c w w'. P w \<Longrightarrow> step c w = Inr w' \<Longrightarrow> P w'"
  shows "P w \<Longrightarrow> exec cs w = Inr w' \<Longrightarrow> P w'"
proof (induction cs arbitrary: w)
  case Nil
  then show ?case by simp
next
  case (Cons c cs)
  from Cons.prems(2) obtain w1 where "step c w = Inr w1" "exec cs w1 = Inr w'"
    by (auto split: sum.splits)
  with Cons.prems(1) assms Cons.IH show ?case by blast
qed

section \<open>What an operation leaves alone\<close>

text \<open>What the single operations change, and what they leave as it was.\<close>

lemma cancel_clears_pointer:
  "cancel s w = Inr w' \<Longrightarrow> subscriptions w' s = Some \<lparr>m_specific_dispatcher = None\<rparr>"
  by (auto simp: cancel_def SpecificDispatcher_unsubscribe_def split: option.splits sum.splits)

lemma cancel_null: "subscriptions w s = Some \<lparr>m_specific_dispatcher = None\<rparr> \<Longrightarrow> cancel s w = Inl NullDeref"
  by (simp add: cancel_def)

lemma cancel_trace: "cancel s w = Inr w' \<Longrightarrow> trace w' = trace w"
  by (auto simp: cancel_def SpecificDispatcher_unsubscribe_def split: option.splits sum.splits)

lemma dispatcher_frame:
  "EventDispatcher_dispatcher t q w = Inr (d, w') \<Longrightarrow>
   trace w' = trace w \<and> subscriptions w' = subscriptions w"
  by (auto simp: EventDispatcher_dispatcher_def split: option.splits if_splits)

lemma dispatcher_found:
  "channel_of t w = Some d \<Longrightarrow> EventDispatcher_dispatcher t q w = Inr (d, w)"
  by (auto simp: channel_of_def EventDispatcher_dispatcher_def split: option.splits)

lemma dispatcher_returns_channel:
  "EventDispatcher_dispatcher t q w = Inr (d, w') \<Longrightarrow>
   channel_of t w' = Some d \<and> (channel_of t w = None \<longrightarrow> dispatchers w' d \<noteq> None)"
  by (auto simp: channel_of_def EventDispatcher_dispatcher_def map_of_map_insert_new
      split: option.splits if_splits)

lemma do_action_trace: "do_action a w = Inr w' \<Longrightarrow> trace w' = trace w"
  by (cases a)
    (auto simp: cancel_trace EventDispatcher_subscribe_def SpecificDispatcher_subscribe_def
      split: sum.splits prod.splits option.splits if_splits dest!: dispatcher_frame)

lemma run_body_trace: "run_body as w = Inr w' \<Longrightarrow> trace w' = trace w"
  by (rule run_body_preserves [where P = "\<lambda>x. trace x = trace w" and w = w and as = as])
    (auto dest: do_action_trace)

lemma invoke_trace: "invoke k c ev w = Inr w' \<Longrightarrow> trace w' = trace w @ [(k, cb_id c, ev)]"
  by (auto simp: invoke_def dest: run_body_trace)

lemma subscribe_fresh:
  "EventDispatcher_subscribe t q p c w = Inr w' \<Longrightarrow> subscriptions w p = None"
  by (auto simp: EventDispatcher_subscribe_def SpecificDispatcher_subscribe_def
      split: sum.splits prod.splits option.splits if_splits dest!: dispatcher_frame)

lemma subscribe_keeps_entry:
  assumes "EventDispatcher_subscribe t q p c w = Inr w'" and "dispatchers w d = Some sd"
    and "map_of (m_callbacks sd) k = Some c'" and "k \<noteq> p"
  shows "\<exists>sd'. dispatchers w' d = Some sd' \<and> map_of (m_callbacks sd') k = Some c'"
  using assms
  by (auto simp: EventDispatcher_subscribe_def SpecificDispatcher_subscribe_def
      EventDispatcher_dispatcher_def map_of_map_insert_other
      split: sum.splits prod.splits option.splits if_splits)

lemma cancel_owned:
  assumes "cancel s w = Inr w'"
  shows "dom (dispatchers w') = dom (dispatchers w) \<and> event_dispatcher w' = event_dispatcher w"
proof -
  from assms obtain sub d sd where sd: "dispatchers w d = Some sd"
    and w': "w' = w\<lparr>dispatchers := (dispatchers w)(d \<mapsto> sd\<lparr>m_callbacks := map_erase s (m_callbacks sd)\<rparr>),
                   subscriptions := (subscriptions w)(s \<mapsto> sub\<lparr>m_specific_dispatcher := None\<rparr>)\<rparr>"
    by (auto simp: cancel_def SpecificDispatcher_unsubscribe_def split: option.splits sum.splits)
  from sd have "d \<in> dom (dispatchers w)" by auto
  then show ?thesis by (simp add: w' insert_absorb)
qed

lemma SpecificDispatcher_subscribe_owned:
  assumes "SpecificDispatcher_subscribe d p c w = Inr w'"
  shows "dom (dispatchers w') = dom (dispatchers w) \<and> event_dispatcher w' = event_dispatcher w"
proof -
  from assms obtain sd where sd: "dispatchers w d = Some sd"
    and w': "w' = w\<lparr>subscriptions := (subscriptions w)(p \<mapsto> \<lparr>m_specific_dispatcher = Some d\<rparr>),
                   dispatchers := (dispatchers w)(d \<mapsto> sd\<lparr>m_callbacks := map_insert p c (m_callbacks sd)\<rparr>)\<rparr>"
    by (auto simp: SpecificDispatcher_subscribe_def split: option.splits if_splits)
  from sd have "d \<in> dom (dispatchers w)" by auto
  then show ?thesis by (simp add: w' insert_absorb)
qed

section \<open>The store stays consistent\<close>

lemma consistent_init: "consistent init"
  by (simp add: consistent_def init_def)

lemma consistent_trace [simp]: "consistent (w\<lparr>trace := tr\<rparr>) = consistent w"
  by (simp add: consistent_def)

lemma consistent_registry [simp]: "consistent (w\<lparr>event_dispatcher := ed\<rparr>) = consistent w"
  by (simp add: consistent_def)

lemma consistent_sorted:
  "consistent w \<Longrightarrow> dispatchers w d = Some sd \<Longrightarrow> sorted_wrt (<) (map fst (m_callbacks sd))"
  by (simp add: consistent_def)

lemma cancel_consistent:
  assumes "consistent w" "cancel s w = Inr w'"
  shows "consistent w'"
proof -
  from assms(2) obtain sub d sd where
    sub: "subscriptions w s = Some sub" "m_specific_dispatcher sub = Some d"
    and sd: "dispatchers w d = Some sd"
    and w': "w' = w\<lparr>dispatchers := (dispatchers w)(d \<mapsto> sd\<lparr>m_callbacks := map_erase s (m_callbacks sd)\<rparr>),
                   subscriptions := (subscriptions w)(s \<mapsto> sub\<lparr>m_specific_dispatcher := None\<rparr>)\<rparr>"
    by (auto simp: cancel_def SpecificDispatcher_unsubscribe_def split: option.splits sum.splits)
  have other: "\<And>d' sd'. dispatchers w d' = Some sd' \<Longrightarrow> d' \<noteq> d \<Longrightarrow> \<not> map_contains s (m_callbacks sd')"
    using assms(1) sub unfolding consistent_def by fastforce
  show ?thesis
    unfolding consistent_def
  proof (intro conjI allI impI)
    fix s' sub' d'
    assume a: "subscriptions w' s' = Some sub'" "m_specific_dispatcher sub' = Some d'"
    then have ne: "s' \<noteq> s" and old: "subscriptions w s' = Some sub'"
      by (auto simp: w' split: if_splits)
    from assms(1) old a(2) obtain sd' where
      sd': "dispatchers w d' = Some sd'" "map_contains s' (m_callbacks sd')"
      unfolding consistent_def by blast
    show "\<exists>sd. dispatchers w' d' = Some sd \<and> map_contains s' (m_callbacks sd)"
      using sd' sd ne by (auto simp: w' map_contains_erase)
  next
    fix d' sd' s'
    assume a: "dispatchers w' d' = Some sd'" "map_contains s' (m_callbacks sd')"
    show "\<exists>sub. subscriptions w' s' = Some sub \<and> m_specific_dispatcher sub = Some d'"
    proof (cases "d' = d")
      case True
      with a sd have "s' \<noteq> s" "map_contains s' (m_callbacks sd)"
        by (auto simp: w' map_contains_erase)
      with assms(1) sd True show ?thesis
        unfolding consistent_def by (auto simp: w')
    next
      case False
      with a have old: "dispatchers w d' = Some sd'" by (simp add: w')
      with other False a(2) have "s' \<noteq> s" by blast
      with assms(1) old a(2) show ?thesis
        unfolding consistent_def by (auto simp: w')
    qed
  next
    fix d' sd'
    assume "dispatchers w' d' = Some sd'"
    with assms(1) sd show "sorted_wrt (<) (map fst (m_callbacks sd'))"
      unfolding consistent_def by (auto simp: w' sorted_map_erase split: if_splits)
  qed
qed

lemma dispatcher_consistent:
  "consistent w \<Longrightarrow> EventDispatcher_dispatcher t q w = Inr (d, w') \<Longrightarrow> consistent w'"
proof -
  assume c: "consistent w" and r: "EventDispatcher_dispatcher t q w = Inr (d, w')"
  show ?thesis
  proof (cases "w' = w")
    case True
    with c show ?thesis by simp
  next
    case False
    with r obtain ed where free: "dispatchers w q = None"
      and w': "w' = w\<lparr>dispatchers := (dispatchers w)(q \<mapsto> \<lparr>m_callbacks = []\<rparr>),
                     event_dispatcher := Some (ed\<lparr>m_dispatchers := map_insert t q (m_dispatchers ed)\<rparr>)\<rparr>"
      by (auto simp: EventDispatcher_dispatcher_def split: option.splits if_splits)
    have "\<And>s sub. subscriptions w s = Some sub \<Longrightarrow> m_specific_dispatcher sub \<noteq> Some q"
      using c free unfolding consistent_def by fastforce
    with c show ?thesis
      unfolding consistent_def w' by (auto simp: map_contains_def split: if_splits)
  qed
qed

lemma SpecificDispatcher_subscribe_consistent:
  assumes "consistent w" "SpecificDispatcher_subscribe d p c w = Inr w'"
  shows "consistent w'"
proof -
  from assms(2) obtain sd where sd: "dispatchers w d = Some sd"
    and free: "subscriptions w p = None"
    and w': "w' = w\<lparr>subscriptions := (subscriptions w)(p \<mapsto> \<lparr>m_specific_dispatcher = Some d\<rparr>),
                   dispatchers := (dispatchers w)(d \<mapsto> sd\<lparr>m_callbacks := map_insert p c (m_callbacks sd)\<rparr>)\<rparr>"
    by (auto simp: SpecificDispatcher_subscribe_def split: option.splits if_splits)
  have nowhere: "\<And>d' sd'. dispatchers w d' = Some sd' \<Longrightarrow> \<not> map_contains p (m_callbacks sd')"
    using assms(1) free unfolding consistent_def by fastforce
  show ?thesis
    unfolding consistent_def
  proof (intro conjI allI impI)
    fix s' sub' d'
    assume a: "subscriptions w' s' = Some sub'" "m_specific_dispatcher sub' = Some d'"
    show "\<exists>sd. dispatchers w' d' = Some sd \<and> map_contains s' (m_callbacks sd)"
    proof (cases "s' = p")
      case True
      with a sd show ?thesis by (auto simp: w' map_contains_insert)
    next
      case False
      with a have "subscriptions w s' = Some sub'" by (simp add: w')
      with assms(1) a(2) obtain sd' where
        "dispatchers w d' = Some sd'" "map_contains s' (m_callbacks sd')"
        unfolding consistent_def by blast
      with sd show ?thesis by (auto simp: w' map_contains_insert)
    qed
  next
    fix d' sd' s'
    assume a: "dispatchers w' d' = Some sd'" "map_contains s' (m_callbacks sd')"
    show "\<exists>sub. subscriptions w' s' = Some sub \<and> m_specific_dispatcher sub = Some d'"
    proof (cases "d' = d")
      case True
      with a sd have "s' = p \<or> map_contains s' (m_callbacks sd)"
        by (auto simp: w' map_contains_insert)
      with assms(1) sd True show ?thesis
        unfolding consistent_def by (auto simp: w')
    next
      case False
      with a have old: "dispatchers w d' = Some sd'" by (simp add: w')
      with nowhere a(2) have "s' \<noteq> p" by blast
      with assms(1) old a(2) show ?thesis
        unfolding consistent_def by (auto simp: w')
    qed
  next
    fix d' sd'
    assume "dispatchers w' d' = Some sd'"
    with assms(1) sd show "sorted_wrt (<) (map fst (m_callbacks sd'))"
      unfolding consistent_def by (auto simp: w' sorted_map_insert split: if_splits)
  qed
qed

lemma EventDispatcher_subscribe_consistent:
  "consistent w \<Longrightarrow> EventDispatcher_subscribe t q p c w = Inr w' \<Longrightarrow> consistent w'"
  by (auto simp: EventDispatcher_subscribe_def split: sum.splits prod.splits
      dest: dispatcher_consistent SpecificDispatcher_subscribe_consistent)

lemma do_action_consistent:
  "consistent w \<Longrightarrow> do_action a w = Inr w' \<Longrightarrow> consistent w'"
  by (cases a) (auto dest: cancel_consistent EventDispatcher_subscribe_consistent)

lemma invoke_consistent:
  "consistent w \<Longrightarrow> invoke k c ev w = Inr w' \<Longrightarrow> consistent w'"
  unfolding invoke_def
  by (rule run_body_preserves [where P = consistent, OF do_action_consistent]) simp_all

lemma publish_from_consistent:
  "consistent w \<Longrightarrow> publish_from d ev k w = Inr w' \<Longrightarrow> consistent w'"
  by (rule publish_from_preserves [where P = consistent]) (auto dest: invoke_consistent)

lemma EventDispatcher_publish_consistent:
  "consistent w \<Longrightarrow> EventDispatcher_publish t q ev w = Inr w' \<Longrightarrow> consistent w'"
  by (auto simp: EventDispatcher_publish_def SpecificDispatcher_publish_def
      split: sum.splits prod.splits option.splits
      dest: dispatcher_consistent publish_from_consistent)

lemma Subscription_destroy_consistent:
  assumes "consistent w" "Subscription_destroy s w = Inr w'"
  shows "consistent w'"
proof -
  from assms(2) obtain w1 where c: "cancel s w = Inr w1"
    and w': "w' = w1\<lparr>subscriptions := (subscriptions w1)(s := None)\<rparr>"
    by (auto simp: Subscription_destroy_def split: sum.splits)
  from c have n: "subscriptions w1 s = Some \<lparr>m_specific_dispatcher = None\<rparr>"
    by (rule cancel_clears_pointer)
  have c1: "consistent w1" using assms(1) c by (rule cancel_consistent)
  then have "\<And>d sd. dispatchers w1 d = Some sd \<Longrightarrow> \<not> map_contains s (m_callbacks sd)"
    using n unfolding consistent_def by fastforce
  with c1 show ?thesis
    unfolding consistent_def w' by (auto split: if_splits)
qed

text \<open>The destructor of a dispatcher that still has an entry.\<close>

lemma destroy_from_faults:
  assumes "consistent w" "dispatchers w d = Some sd" "map_contains k (m_callbacks sd)"
  shows "destroy_from d k w = Inl InvalidIterator"
proof -
  from assms obtain sub where "subscriptions w k = Some sub" "m_specific_dispatcher sub = Some d"
    unfolding consistent_def by blast
  with assms(2) show ?thesis
    by (subst destroy_from.simps)
      (simp add: cancel_def SpecificDispatcher_unsubscribe_def map_contains_erase)
qed

lemma SpecificDispatcher_destroy_nonempty:
  assumes "consistent w" "dispatchers w d = Some sd" "m_callbacks sd \<noteq> []"
  shows "SpecificDispatcher_destroy d w = Inl InvalidIterator"
proof -
  from assms(3) obtain e m where m: "m_callbacks sd = e # m"
    by (cases "m_callbacks sd") auto
  then have "map_contains (fst e) (m_callbacks sd)"
    by (simp add: map_contains_def)
  from destroy_from_faults [OF assms(1) assms(2) this] assms(2) m show ?thesis
    by (simp add: SpecificDispatcher_destroy_def map_begin_def)
qed

lemma SpecificDispatcher_destroy_consistent:
  assumes "consistent w" "SpecificDispatcher_destroy d w = Inr w'"
  shows "consistent w'"
proof -
  from assms(2) obtain sd where sd: "dispatchers w d = Some sd"
    by (auto simp: SpecificDispatcher_destroy_def split: option.splits)
  have e: "m_callbacks sd = []"
    using SpecificDispatcher_destroy_nonempty [OF assms(1) sd] assms(2) by auto
  with assms(2) sd have w': "w' = w\<lparr>dispatchers := (dispatchers w)(d := None)\<rparr>"
    by (simp add: SpecificDispatcher_destroy_def map_begin_def)
  have "\<And>s sub. subscriptions w s = Some sub \<Longrightarrow> m_specific_dispatcher sub \<noteq> Some d"
    using assms(1) sd e unfolding consistent_def map_contains_def by fastforce
  with assms(1) show ?thesis
    unfolding consistent_def w' by (auto split: if_splits)
qed

lemma SpecificDispatcher_destroy_result:
  assumes "consistent w" "SpecificDispatcher_destroy d w = Inr w'"
  shows "w' = w\<lparr>dispatchers := (dispatchers w)(d := None)\<rparr>"
proof -
  from assms(2) obtain sd where sd: "dispatchers w d = Some sd"
    by (auto simp: SpecificDispatcher_destroy_def split: option.splits)
  have "m_callbacks sd = []"
    using SpecificDispatcher_destroy_nonempty [OF assms(1) sd] assms(2) by auto
  with assms(2) sd show ?thesis
    by (simp add: SpecificDispatcher_destroy_def map_begin_def)
qed

lemma destroy_all_consistent:
  "consistent w \<Longrightarrow> destroy_all ds w = Inr w' \<Longrightarrow> consistent w'"
  by (induction ds arbitrary: w) (auto split: sum.splits dest: SpecificDispatcher_destroy_consistent)

lemma destroy_all_frame:
  "consistent w \<Longrightarrow> destroy_all ds w = Inr w' \<Longrightarrow>
   trace w' = trace w \<and> subscriptions w' = subscriptions w"
proof (induction ds arbitrary: w)
  case Nil
  then show ?case by simp
next
  case (Cons d ds)
  from Cons.prems(2) obtain w1 where a: "SpecificDispatcher_destroy d w = Inr w1"
    and b: "destroy_all ds w1 = Inr w'"
    by (auto split: sum.splits)
  have "consistent w1" using Cons.prems(1) a by (rule SpecificDispatcher_destroy_consistent)
  from Cons.IH [OF this b] SpecificDispatcher_destroy_result [OF Cons.prems(1) a]
  show ?case by simp
qed

lemma destroy_all_result:
  "consistent w \<Longrightarrow> destroy_all ds w = Inr w' \<Longrightarrow>
   w' = w\<lparr>dispatchers := (\<lambda>d. if d \<in> set ds then None else dispatchers w d)\<rparr>"
proof (induction ds arbitrary: w)
  case Nil
  then show ?case by simp
next
  case (Cons d ds)
  from Cons.prems(2) obtain w1 where a: "SpecificDispatcher_destroy d w = Inr w1"
    and b: "destroy_all ds w1 = Inr w'"
    by (auto split: sum.splits)
  have c1: "consistent w1" using Cons.prems(1) a by (rule SpecificDispatcher_destroy_consistent)
  have w1: "w1 = w\<lparr>dispatchers := (dispatchers w)(d := None)\<rparr>"
    using Cons.prems(1) a by (rule SpecificDispatcher_destroy_result)
  have "(\<lambda>x. if x \<in> set ds then None else dispatchers w1 x)
      = (\<lambda>x. if x \<in> set (d # ds) then None else dispatchers w x)"
    by (auto simp: w1 fun_eq_iff)
  with Cons.IH [OF c1 b] show ?case by (simp add: w1)
qed

lemma destroy_all_faults:
  "consistent w \<Longrightarrow> distinct ds \<Longrightarrow> set ds \<subseteq> dom (dispatchers w) \<Longrightarrow> d \<in> set ds \<Longrightarrow>
   dispatchers w d = Some sd \<Longrightarrow> m_callbacks sd \<noteq> [] \<Longrightarrow> destroy_all ds w = Inl InvalidIterator"
proof (induction ds arbitrary: w)
  case Nil
  then show ?case by simp
next
  case (Cons d0 ds)
  from Cons.prems(3) obtain sd0 where sd0: "dispatchers w d0 = Some sd0" by auto
  show ?case
  proof (cases "m_callbacks sd0 = []")
    case False
    with SpecificDispatcher_destroy_nonempty [OF Cons.prems(1) sd0] show ?thesis by simp
  next
    case True
    let ?w1 = "w\<lparr>dispatchers := (dispatchers w)(d0 := None)\<rparr>"
    have a: "SpecificDispatcher_destroy d0 w = Inr ?w1"
      using sd0 True by (simp add: SpecificDispatcher_destroy_def map_begin_def)
    have c1: "consistent ?w1" using Cons.prems(1) a by (rule SpecificDispatcher_destroy_consistent)
    from True sd0 Cons.prems(5) Cons.prems(6) have ne: "d \<noteq> d0" by auto
    with Cons.prems(4) have d: "d \<in> set ds" by simp
    have "set ds \<subseteq> dom (dispatchers ?w1)"
      using Cons.prems(2) Cons.prems(3) by auto
    moreover have "dispatchers ?w1 d = Some sd" using ne Cons.prems(5) by simp
    moreover have "distinct ds" using Cons.prems(2) by simp
    ultimately have "destroy_all ds ?w1 = Inl InvalidIterator"
      using c1 d Cons.prems(6) by (intro Cons.IH)
    with a show ?thesis by simp
  qed
qed

lemma destroy_all_empty:
  "distinct ds \<Longrightarrow> \<forall>d \<in> set ds. \<exists>sd. dispatchers w d = Some sd \<and> m_callbacks sd = [] \<Longrightarrow>
   destroy_all ds w = Inr (w\<lparr>dispatchers := (\<lambda>d. if d \<in> set ds then None else dispatchers w d)\<rparr>)"
proof (induction ds arbitrary: w)
  case Nil
  then show ?case by simp
next
  case (Cons d0 ds)
  let ?w1 = "w\<lparr>dispatchers := (dispatchers w)(d0 := None)\<rparr>"
  from Cons.prems(2) have a: "SpecificDispatcher_destroy d0 w = Inr ?w1"
    by (auto simp: SpecificDispatcher_destroy_def map_begin_def)
  have "\<forall>d \<in> set ds. \<exists>sd. dispatchers ?w1 d = Some sd \<and> m_callbacks sd = []"
    using Cons.prems by auto
  moreover have "distinct ds" using Cons.prems(1) by simp
  ultimately have "destroy_all ds ?w1
      = Inr (?w1\<lparr>dispatchers := (\<lambda>d. if d \<in> set ds then None else dispatchers ?w1 d)\<rparr>)"
    by (intro Cons.IH)
  moreover have "(\<lambda>x. if x \<in> set ds then None else dispatchers ?w1 x)
      = (\<lambda>x. if x \<in> set (d0 # ds) then None else dispatchers w x)"
    by (auto simp: fun_eq_iff)
  ultimately show ?case using a by simp
qed

lemma EventDispatcher_destroy_consistent:
  "consistent w \<Longrightarrow> EventDispatcher_destroy w = Inr w' \<Longrightarrow> consistent w'"
  by (auto simp: EventDispatcher_destroy_def split: option.splits sum.splits
      dest: destroy_all_consistent)

lemma EventDispatcher_destroy_frame:
  "consistent w \<Longrightarrow> EventDispatcher_destroy w = Inr w' \<Longrightarrow>
   trace w' = trace w \<and> subscriptions w' = subscriptions w"
  by (auto simp: EventDispatcher_destroy_def split: option.splits sum.splits dest: destroy_all_frame)

lemma step_consistent:
  "consistent w \<Longrightarrow> step c w = Inr w' \<Longrightarrow> consistent w'"
  by (cases c)
    (auto dest: do_action_consistent EventDispatcher_publish_consistent
      Subscription_destroy_consistent EventDispatcher_destroy_consistent)

lemma exec_consistent:
  "consistent w \<Longrightarrow> exec cs w = Inr w' \<Longrightarrow> consistent w'"
  by (rule exec_preserves [where P = consistent, OF step_consistent])

lemma reachable_consistent: "exec cs init = Inr w \<Longrightarrow> consistent w"
  by (rule exec_consistent [OF consistent_init])

lemma registered_has_pointer:
  assumes "consistent w" "dispatchers w d = Some sd" "map_of (m_callbacks sd) k = Some c"
  shows "\<exists>sub. subscriptions w k = Some sub \<and> m_specific_dispatcher sub = Some d"
proof -
  from assms(3) have "map_contains k (m_callbacks sd)"
    by (force simp: map_contains_def dest: map_of_SomeD)
  with assms(1) assms(2) show ?thesis
    unfolding consistent_def by blast
qed

lemma cancel_registered:
  assumes "consistent w" and "dispatchers w d = Some sd" and "map_contains s (m_callbacks sd)"
  shows "\<exists>sub. subscriptions w s = Some sub \<and>
     cancel s w = Inr (w\<lparr>dispatchers := (dispatchers w)(d \<mapsto> sd\<lparr>m_callbacks := map_erase s (m_callbacks sd)\<rparr>),
                        subscriptions := (subscriptions w)(s \<mapsto> sub\<lparr>m_specific_dispatcher := None\<rparr>)\<rparr>)"
proof -
  from assms obtain sub where "subscriptions w s = Some sub" "m_specific_dispatcher sub = Some d"
    unfolding consistent_def by blast
  with assms(2) show ?thesis
    by (simp add: cancel_def SpecificDispatcher_unsubscribe_def)
qed

lemma subscribe_registers:
  assumes "consistent w" and "EventDispatcher_subscribe t q p c w = Inr w'"
  shows "\<exists>d sd sub. channel_of t w' = Some d \<and> dispatchers w' d = Some sd
           \<and> map_of (m_callbacks sd) p = Some c
           \<and> subscriptions w' p = Some sub \<and> m_specific_dispatcher sub = Some d"
proof -
  from assms(2) obtain d w1 where a: "EventDispatcher_dispatcher t q w = Inr (d, w1)"
    and b: "SpecificDispatcher_subscribe d p c w1 = Inr w'"
    by (auto simp: EventDispatcher_subscribe_def split: sum.splits prod.splits)
  have c1: "consistent w1" using assms(1) a by (rule dispatcher_consistent)
  have ch: "channel_of t w1 = Some d" using dispatcher_returns_channel [OF a] by simp
  from b obtain sd1 where sd1: "dispatchers w1 d = Some sd1" and free: "subscriptions w1 p = None"
    and w': "w' = w1\<lparr>subscriptions := (subscriptions w1)(p \<mapsto> \<lparr>m_specific_dispatcher = Some d\<rparr>),
                   dispatchers := (dispatchers w1)(d \<mapsto> sd1\<lparr>m_callbacks := map_insert p c (m_callbacks sd1)\<rparr>)\<rparr>"
    by (auto simp: SpecificDispatcher_subscribe_def split: option.splits if_splits)
  have "\<not> map_contains p (m_callbacks sd1)"
    using c1 sd1 free unfolding consistent_def by fastforce
  then have "map_of (m_callbacks sd1) p = None"
    by (simp add: map_contains_def map_of_eq_None_iff)
  then have "map_of (map_insert p c (m_callbacks sd1)) p = Some c"
    by (simp add: map_of_map_insert_new)
  with ch show ?thesis
    by (simp add: w' channel_of_def)
qed

section \<open>The registry owns the dispatchers\<close>

text \<open>Every call but the destruction of the \<^verbatim>\<open>EventDispatcher\<close> keeps a channel in place.\<close>

lemma registry_wf_trace [simp]: "registry_wf (w\<lparr>trace := tr\<rparr>) = registry_wf w"
  by (simp add: registry_wf_def)

lemma registry_wf_same:
  "registry_wf w \<Longrightarrow> dom (dispatchers w') = dom (dispatchers w) \<Longrightarrow>
   event_dispatcher w' = event_dispatcher w \<Longrightarrow> registry_wf w'"
  by (simp add: registry_wf_def)

lemma cancel_registry_wf: "registry_wf w \<Longrightarrow> cancel s w = Inr w' \<Longrightarrow> registry_wf w'"
  using cancel_owned [of s w w'] by (simp add: registry_wf_same)

lemma dispatcher_registry_wf:
  assumes "registry_wf w" and "EventDispatcher_dispatcher t q w = Inr (d, w')"
  shows "registry_wf w'"
proof (cases "w' = w")
  case True
  with assms(1) show ?thesis by simp
next
  case False
  with assms(2) obtain ed where ed: "event_dispatcher w = Some ed"
    and new: "map_of (m_dispatchers ed) t = None" and free: "dispatchers w q = None"
    and w': "w' = w\<lparr>dispatchers := (dispatchers w)(q \<mapsto> \<lparr>m_callbacks = []\<rparr>),
                   event_dispatcher := Some (ed\<lparr>m_dispatchers := map_insert t q (m_dispatchers ed)\<rparr>)\<rparr>"
    by (auto simp: EventDispatcher_dispatcher_def split: option.splits if_splits)
  from assms(1) ed have wf: "distinct (map snd (m_dispatchers ed))"
    "dom (dispatchers w) = snd ` set (m_dispatchers ed)"
    by (simp_all add: registry_wf_def)
  from free wf(2) have "q \<notin> snd ` set (m_dispatchers ed)" by auto
  from distinct_snd_map_insert [OF new this wf(1)] wf(2) show ?thesis
    by (simp add: registry_wf_def w' set_map_insert_new [OF new])
qed

lemma SpecificDispatcher_subscribe_registry_wf:
  "registry_wf w \<Longrightarrow> SpecificDispatcher_subscribe d p c w = Inr w' \<Longrightarrow> registry_wf w'"
  using SpecificDispatcher_subscribe_owned [of d p c w w'] by (simp add: registry_wf_same)

lemma do_action_registry_wf: "registry_wf w \<Longrightarrow> do_action a w = Inr w' \<Longrightarrow> registry_wf w'"
  by (cases a)
    (auto simp: EventDispatcher_subscribe_def split: sum.splits prod.splits
      dest: cancel_registry_wf dispatcher_registry_wf SpecificDispatcher_subscribe_registry_wf)

lemma invoke_registry_wf: "registry_wf w \<Longrightarrow> invoke k c ev w = Inr w' \<Longrightarrow> registry_wf w'"
  unfolding invoke_def
  by (rule run_body_preserves [where P = registry_wf, OF do_action_registry_wf]) simp_all

lemma publish_registry_wf:
  assumes "registry_wf w" and "EventDispatcher_publish t q ev w = Inr w'"
  shows "registry_wf w'"
proof -
  from assms(2) obtain d w1 where a: "EventDispatcher_dispatcher t q w = Inr (d, w1)"
    and b: "SpecificDispatcher_publish d ev w1 = Inr w'"
    by (auto simp: EventDispatcher_publish_def split: sum.splits prod.splits)
  have "registry_wf w1" using assms(1) a by (rule dispatcher_registry_wf)
  then show ?thesis using b
    by (rule SpecificDispatcher_publish_preserves [where P = registry_wf, rotated 1])
      (erule invoke_registry_wf)
qed

lemma step_registry_wf:
  assumes "consistent w \<and> registry_wf w" and "step c w = Inr w'"
  shows "consistent w' \<and> registry_wf w'"
proof
  from assms show "consistent w'" by (blast intro: step_consistent)
  from assms(1) have c: "consistent w" and r: "registry_wf w" by simp_all
  show "registry_wf w'"
  proof (cases c)
    case (Do a)
    with assms(2) r show ?thesis by (auto dest: do_action_registry_wf)
  next
    case (Publish t q ev)
    with assms(2) r show ?thesis by (auto dest: publish_registry_wf)
  next
    case (Destroy s)
    with assms(2) obtain w1 where a: "cancel s w = Inr w1"
      and w': "w' = w1\<lparr>subscriptions := (subscriptions w1)(s := None)\<rparr>"
      by (auto simp: Subscription_destroy_def split: sum.splits)
    from r cancel_owned [OF a] show ?thesis
      by (simp add: w' registry_wf_def)
  next
    case Teardown
    with assms(2) obtain ed w1 where ed: "event_dispatcher w = Some ed"
      and a: "destroy_all (map snd (m_dispatchers ed)) w = Inr w1"
      and w': "w' = w1\<lparr>event_dispatcher := None\<rparr>"
      by (auto simp: EventDispatcher_destroy_def split: option.splits sum.splits)
    from r ed have "dom (dispatchers w) = set (map snd (m_dispatchers ed))"
      by (simp add: registry_wf_def)
    with destroy_all_result [OF c a] have "dom (dispatchers w1) = {}"
      by (auto simp: dom_def split: if_splits)
    then show ?thesis by (simp add: registry_wf_def w')
  qed
qed

lemma reachable_registry_wf:
  assumes "exec cs init = Inr w"
  shows "registry_wf w"
proof -
  have "consistent init \<and> registry_wf init"
    by (simp add: consistent_init registry_wf_def) (simp add: init_def)
  with step_registry_wf have "consistent w \<and> registry_wf w"
    using assms by (rule exec_preserves [where P = "\<lambda>x. consistent x \<and> registry_wf x"])
  then show ?thesis ..
qed

lemma holds_channel_trace [simp]: "holds_channel t d (w\<lparr>trace := tr\<rparr>) = holds_channel t d w"
  by (simp add: holds_channel_def channel_of_def)

lemma cancel_holds_channel:
  "holds_channel t d w \<Longrightarrow> cancel s w = Inr w' \<Longrightarrow> holds_channel t d w'"
  by (auto simp: holds_channel_def channel_of_def cancel_def SpecificDispatcher_unsubscribe_def
      split: option.splits sum.splits)

lemma dispatcher_holds_channel:
  "holds_channel t d w \<Longrightarrow> EventDispatcher_dispatcher t' q w = Inr (d', w') \<Longrightarrow> holds_channel t d w'"
  by (auto simp: holds_channel_def channel_of_def EventDispatcher_dispatcher_def map_of_map_insert_new
      split: option.splits if_splits)

lemma SpecificDispatcher_subscribe_holds_channel:
  "holds_channel t d w \<Longrightarrow> SpecificDispatcher_subscribe d' p c w = Inr w' \<Longrightarrow> holds_channel t d w'"
  by (auto simp: holds_channel_def channel_of_def SpecificDispatcher_subscribe_def
      split: option.splits if_splits)

lemma do_action_holds_channel:
  "holds_channel t d w \<Longrightarrow> do_action a w = Inr w' \<Longrightarrow> holds_channel t d w'"
  by (cases a)
    (auto simp: EventDispatcher_subscribe_def split: sum.splits prod.splits
      dest: cancel_holds_channel dispatcher_holds_channel SpecificDispatcher_subscribe_holds_channel)

lemma invoke_holds_channel:
  "holds_channel t d w \<Longrightarrow> invoke k c ev w = Inr w' \<Longrightarrow> holds_channel t d w'"
  unfolding invoke_def
  by (rule run_body_preserves [where P = "holds_channel t d", OF do_action_holds_channel]) simp_all

lemma publish_holds_channel:
  "holds_channel t d w \<Longrightarrow> EventDispatcher_publish t' q ev w = Inr w' \<Longrightarrow> holds_channel t d w'"
proof -
  assume h: "holds_channel t d w" and p: "EventDispatcher_publish t' q ev w = Inr w'"
  from p obtain d' w1 where a: "EventDispatcher_dispatcher t' q w = Inr (d', w1)"
    and b: "SpecificDispatcher_publish d' ev w1 = Inr w'"
    by (auto simp: EventDispatcher_publish_def split: sum.splits prod.splits)
  have h1: "holds_channel t d w1" using h a by (rule dispatcher_holds_channel)
  show ?thesis
  proof (cases "w' = w1")
    case True
    with h1 show ?thesis by simp
  next
    case False
    with b obtain k where "publish_from d' ev k w1 = Inr w'"
      by (auto simp: SpecificDispatcher_publish_def split: option.splits)
    with h1 show ?thesis
      by (rule publish_from_preserves [where P = "holds_channel t d", rotated 1])
        (erule invoke_holds_channel)
  qed
qed

lemma destroy_holds_channel:
  "holds_channel t d w \<Longrightarrow> Subscription_destroy s w = Inr w' \<Longrightarrow> holds_channel t d w'"
  by (auto simp: Subscription_destroy_def holds_channel_def channel_of_def
      cancel_def SpecificDispatcher_unsubscribe_def split: sum.splits option.splits)

lemma exec_holds_channel:
  "holds_channel t d w \<Longrightarrow> exec cs w = Inr w' \<Longrightarrow> Teardown \<notin> set cs \<Longrightarrow> holds_channel t d w'"
proof (induction cs arbitrary: w)
  case Nil
  then show ?case by simp
next
  case (Cons c cs)
  from Cons.prems(2) obtain w1 where s: "step c w = Inr w1" and r: "exec cs w1 = Inr w'"
    by (auto split: sum.splits)
  from Cons.prems(3) have nt: "c \<noteq> Teardown" "Teardown \<notin> set cs" by auto
  have "holds_channel t d w1"
    using Cons.prems(1) s nt(1)
    by (cases c) (auto dest: do_action_holds_channel publish_holds_channel destroy_holds_channel)
  from Cons.IH [OF this r nt(2)] show ?case .
qed

text \<open>A dispatcher is the channel of one type only, and the channel of a type exists.\<close>

lemma channel_inj:
  assumes "registry_wf w" and "channel_of t w = Some d" and "channel_of t' w = Some d"
  shows "t' = t"
proof -
  from assms(2) obtain ed where ed: "event_dispatcher w = Some ed"
    and a: "map_of (m_dispatchers ed) t = Some d"
    by (auto simp: channel_of_def split: option.splits)
  from assms(3) ed have b: "map_of (m_dispatchers ed) t' = Some d"
    by (simp add: channel_of_def)
  from assms(1) ed have "distinct (map snd (m_dispatchers ed))"
    by (simp add: registry_wf_def)
  moreover from a b have "(t, d) \<in> set (m_dispatchers ed)" "(t', d) \<in> set (m_dispatchers ed)"
    by (auto dest: map_of_SomeD)
  ultimately show ?thesis
    by (metis distinct_map inj_on_def snd_conv fst_conv)
qed

lemma channel_live:
  assumes "registry_wf w" and "channel_of t w = Some d"
  shows "dispatchers w d \<noteq> None"
proof -
  from assms(2) obtain ed where ed: "event_dispatcher w = Some ed"
    and a: "map_of (m_dispatchers ed) t = Some d"
    by (auto simp: channel_of_def split: option.splits)
  from a have "d \<in> snd ` set (m_dispatchers ed)"
    by (force dest: map_of_SomeD)
  with assms(1) ed have "d \<in> dom (dispatchers w)"
    by (simp add: registry_wf_def)
  then show ?thesis by auto
qed

section \<open>Cancelled and destroyed handles\<close>

text \<open>
  Nothing in the library sets \<^verbatim>\<open>m_specific_dispatcher\<close> back from \<^verbatim>\<open>nullptr\<close>, and a
  dispatch loop only invokes keys of the map, which are not cancelled.
\<close>

lemma cancelled_trace [simp]: "cancelled s (w\<lparr>trace := tr\<rparr>) = cancelled s w"
  by (simp add: cancelled_def)

lemma cancel_cancelled: "cancel s w = Inr w' \<Longrightarrow> cancelled s w'"
  by (auto simp: cancelled_def dest: cancel_clears_pointer)

lemma cancelled_cancel_other:
  "cancelled s w \<Longrightarrow> cancel s' w = Inr w' \<Longrightarrow> s' \<noteq> s \<and> cancelled s w'"
  by (auto simp: cancelled_def cancel_def SpecificDispatcher_unsubscribe_def
      split: option.splits sum.splits)

lemma do_action_cancelled:
  "cancelled s w \<Longrightarrow> do_action a w = Inr w' \<Longrightarrow> cancelled s w'"
proof (cases a)
  case (Cancel s')
  assume "cancelled s w" "do_action a w = Inr w'"
  with Cancel show ?thesis by (auto dest: cancelled_cancel_other)
next
  case (Subscribe t q p c)
  assume "cancelled s w" "do_action a w = Inr w'"
  with Subscribe show ?thesis
    by (auto simp: cancelled_def EventDispatcher_subscribe_def SpecificDispatcher_subscribe_def
        split: sum.splits prod.splits option.splits if_splits dest!: dispatcher_frame)
qed

lemma invoke_cancelled:
  "cancelled s w \<Longrightarrow> invoke k c ev w = Inr w' \<Longrightarrow> cancelled s w'"
  unfolding invoke_def
  by (rule run_body_preserves [where P = "cancelled s", OF do_action_cancelled]) simp_all

lemma publish_from_cancelled:
  "cancelled s w \<Longrightarrow> publish_from d ev k w = Inr w' \<Longrightarrow> cancelled s w'"
  by (rule publish_from_preserves [where P = "cancelled s"]) (auto dest: invoke_cancelled)

lemma cancelled_not_registered: "consistent w \<Longrightarrow> cancelled s w \<Longrightarrow> \<not> registered d s w"
  unfolding consistent_def cancelled_def registered_def by fastforce

lemma silent_since_refl: "silent_since w s w"
  by (simp add: silent_since_def)

lemma silent_since_same_trace: "silent_since w0 s w \<Longrightarrow> trace w' = trace w \<Longrightarrow> silent_since w0 s w'"
  by (simp add: silent_since_def)

lemma silent_since_invoke:
  "silent_since w0 s w \<Longrightarrow> invoke k c ev w = Inr w' \<Longrightarrow> k \<noteq> s \<Longrightarrow> silent_since w0 s w'"
  by (auto simp: silent_since_def dest!: invoke_trace)

lemma invoke_muted:
  assumes "muted w0 s w" and "dispatchers w d = Some sd" and "map_of (m_callbacks sd) k = Some c"
    and "invoke k c ev w = Inr w'"
  shows "muted w0 s w'"
proof -
  from assms(1) have c: "consistent w" and n: "cancelled s w" and q: "silent_since w0 s w"
    by (simp_all add: muted_def)
  from registered_has_pointer [OF c assms(2) assms(3)] n have "k \<noteq> s"
    by (auto simp: cancelled_def)
  with q assms(4) have "silent_since w0 s w'" by (rule silent_since_invoke)
  with invoke_consistent [OF c assms(4)] invoke_cancelled [OF n assms(4)] show ?thesis
    by (simp add: muted_def)
qed

lemma step_muted:
  assumes "muted w0 s w" and "step c w = Inr w'"
  shows "muted w0 s w'"
proof -
  from assms(1) have c: "consistent w" and n: "cancelled s w" and q: "silent_since w0 s w"
    by (simp_all add: muted_def)
  have c': "consistent w'" using c assms(2) by (rule step_consistent)
  show ?thesis
  proof (cases c)
    case (Do a)
    with assms(2) have a: "do_action a w = Inr w'" by simp
    from do_action_cancelled [OF n a] silent_since_same_trace [OF q do_action_trace [OF a]] c'
    show ?thesis by (simp add: muted_def)
  next
    case (Publish t q' ev)
    with assms(2) obtain d w1 where a: "EventDispatcher_dispatcher t q' w = Inr (d, w1)"
      and b: "SpecificDispatcher_publish d ev w1 = Inr w'"
      by (auto simp: EventDispatcher_publish_def split: sum.splits prod.splits)
    from dispatcher_frame [OF a] n q dispatcher_consistent [OF c a] have "muted w0 s w1"
      by (simp add: muted_def cancelled_def silent_since_def)
    then show ?thesis using b
      by (rule SpecificDispatcher_publish_preserves [where P = "muted w0 s", rotated 1])
        (rule invoke_muted)
  next
    case (Destroy s')
    with assms(2) obtain w1 where a: "cancel s' w = Inr w1"
      and w': "w' = w1\<lparr>subscriptions := (subscriptions w1)(s' := None)\<rparr>"
      by (auto simp: Subscription_destroy_def split: sum.splits)
    from cancelled_cancel_other [OF n a] have "s' \<noteq> s" "cancelled s w1" by simp_all
    then have "cancelled s w'" by (simp add: w' cancelled_def)
    moreover have "trace w' = trace w" using cancel_trace [OF a] by (simp add: w')
    ultimately show ?thesis using q c'
      by (simp add: muted_def silent_since_def)
  next
    case Teardown
    with assms(2) have "EventDispatcher_destroy w = Inr w'" by simp
    from EventDispatcher_destroy_frame [OF c this] n q c' show ?thesis
      by (simp add: muted_def cancelled_def silent_since_def)
  qed
qed

lemma exec_muted: "muted w0 s w \<Longrightarrow> exec cs w = Inr w' \<Longrightarrow> muted w0 s w'"
  by (rule exec_preserves [where P = "muted w0 s", OF step_muted])

lemma do_action_allocated:
  "subscriptions w s \<noteq> None \<Longrightarrow> do_action a w = Inr w' \<Longrightarrow> subscriptions w' s \<noteq> None"
  by (cases a)
    (auto simp: cancel_def SpecificDispatcher_unsubscribe_def
      EventDispatcher_subscribe_def SpecificDispatcher_subscribe_def
      split: sum.splits prod.splits option.splits if_splits dest!: dispatcher_frame)

lemma invoke_allocated:
  "subscriptions w s \<noteq> None \<Longrightarrow> invoke k c ev w = Inr w' \<Longrightarrow> subscriptions w' s \<noteq> None"
  unfolding invoke_def
  by (rule run_body_preserves [where P = "\<lambda>x. subscriptions x s \<noteq> None", OF do_action_allocated])
    simp_all

lemma invoke_unheard:
  assumes "unheard w0 s w" and "dispatchers w d = Some sd" and "map_of (m_callbacks sd) k = Some c"
    and "invoke k c ev w = Inr w'"
  shows "unheard w0 s w'"
proof -
  from assms(1) have c: "consistent w" and q: "subscriptions w s = None \<longrightarrow> silent_since w0 s w"
    and e: "\<exists>tr. trace w = trace w0 @ tr"
    by (simp_all add: unheard_def)
  have "silent_since w0 s w'" if free: "subscriptions w' s = None"
  proof -
    from free invoke_allocated [OF _ assms(4), of s] have f: "subscriptions w s = None" by blast
    with registered_has_pointer [OF c assms(2) assms(3)] have "k \<noteq> s" by auto
    with q f assms(4) show ?thesis by (auto intro: silent_since_invoke)
  qed
  moreover from e invoke_trace [OF assms(4)] have "\<exists>tr. trace w' = trace w0 @ tr" by auto
  ultimately show ?thesis
    using invoke_consistent [OF c assms(4)] by (simp add: unheard_def)
qed

section \<open>Dispatch passes\<close>

text \<open>
  A pass over quiet callbacks is a walk down the map. A pass over any callbacks that returns
  has moved its iterator upwards through the live map: it has invoked, once, every entry
  that was in the map at the start and is still there at the end.
\<close>

lemma invoke_quiet:
  "quiet c \<Longrightarrow> invoke k c ev w = Inr (w\<lparr>trace := trace w @ [(k, cb_id c, ev)]\<rparr>)"
  by (simp add: invoke_def quiet_def)

lemma publish_from_quiet:
  assumes "dispatchers w d = Some sd"
    and "m_callbacks sd = pre @ (k, c) # post"
    and "sorted_wrt (<) (map fst (m_callbacks sd))"
    and "\<forall>e \<in> set ((k, c) # post). quiet (snd e)"
  shows "publish_from d ev k w = Inr (w\<lparr>trace := trace w @ deliveries ev ((k, c) # post)\<rparr>)"
  using assms
proof (induction post arbitrary: pre k c w)
  case Nil
  have mo: "map_of (m_callbacks sd) k = Some c"
    using Nil.prems(3) unfolding Nil.prems(2) by (rule map_of_mid)
  have mn: "map_next k (m_callbacks sd) = None"
    using Nil.prems(3) unfolding Nil.prems(2) by (simp only: map_next_mid) (simp add: map_begin_def)
  have mc: "map_contains k (m_callbacks sd)"
    by (simp add: Nil.prems(2) map_contains_def)
  have q: "quiet c" using Nil.prems(4) by simp
  show ?case
    by (subst publish_from.simps)
      (simp add: Nil.prems(1) mo mn mc invoke_quiet [OF q] deliveries_def)
next
  case (Cons e post)
  let ?w1 = "w\<lparr>trace := trace w @ [(k, cb_id c, ev)]\<rparr>"
  have mo: "map_of (m_callbacks sd) k = Some c"
    using Cons.prems(3) unfolding Cons.prems(2) by (rule map_of_mid)
  have mn: "map_next k (m_callbacks sd) = Some (fst e)"
    using Cons.prems(3) unfolding Cons.prems(2) by (simp only: map_next_mid) (simp add: map_begin_def)
  have mc: "map_contains k (m_callbacks sd)"
    by (simp add: Cons.prems(2) map_contains_def)
  have q: "quiet c" using Cons.prems(4) by simp
  have d1: "dispatchers ?w1 d = Some sd"
    using Cons.prems(1) by simp
  have m1: "m_callbacks sd = (pre @ [(k, c)]) @ (fst e, snd e) # post"
    using Cons.prems(2) by simp
  have p1: "\<forall>x \<in> set ((fst e, snd e) # post). quiet (snd x)"
    using Cons.prems(4) by simp
  have ih: "publish_from d ev (fst e) ?w1
      = Inr (?w1\<lparr>trace := trace ?w1 @ deliveries ev ((fst e, snd e) # post)\<rparr>)"
    by (rule Cons.IH [OF d1 m1 Cons.prems(3) p1])
  have step: "publish_from d ev k w = publish_from d ev (fst e) ?w1"
    by (subst publish_from.simps)
      (simp add: Cons.prems(1) mo mn mc invoke_quiet [OF q])
  show ?case
    unfolding step ih by (simp add: deliveries_def)
qed

lemma SpecificDispatcher_publish_quiet:
  assumes "dispatchers w d = Some sd"
    and "sorted_wrt (<) (map fst (m_callbacks sd))"
    and "\<forall>e \<in> set (m_callbacks sd). quiet (snd e)"
  shows "SpecificDispatcher_publish d ev w = Inr (w\<lparr>trace := trace w @ deliveries ev (m_callbacks sd)\<rparr>)"
proof (cases "m_callbacks sd")
  case Nil
  with assms show ?thesis
    by (simp add: SpecificDispatcher_publish_def map_begin_def deliveries_def)
next
  case (Cons e m)
  then have m: "m_callbacks sd = [] @ (fst e, snd e) # m" by simp
  have p: "\<forall>x \<in> set ((fst e, snd e) # m). quiet (snd x)"
    using assms(3) Cons by simp
  from publish_from_quiet [OF assms(1) m assms(2) p, of ev] assms(1) Cons
  show ?thesis
    by (simp add: SpecificDispatcher_publish_def map_begin_def)
qed

lemma EventDispatcher_publish_quiet:
  assumes "channel_of t w = Some d" and "dispatchers w d = Some sd"
    and "sorted_wrt (<) (map fst (m_callbacks sd))"
    and "\<forall>e \<in> set (m_callbacks sd). quiet (snd e)"
  shows "EventDispatcher_publish t q ev w = Inr (w\<lparr>trace := trace w @ deliveries ev (m_callbacks sd)\<rparr>)"
  using SpecificDispatcher_publish_quiet [OF assms(2) assms(3) assms(4)] dispatcher_found [OF assms(1)]
  by (simp add: EventDispatcher_publish_def)

lemma invocations_of_absent: "map_of m p = None \<Longrightarrow> invocations_of p (deliveries ev m) = []"
  by (induction m) (auto simp: invocations_of_def deliveries_def split: if_splits)

lemma invocations_of_deliveries:
  "distinct (map fst m) \<Longrightarrow> map_of m p = Some c \<Longrightarrow>
   invocations_of p (deliveries ev m) = [(p, cb_id c, ev)]"
proof (induction m)
  case Nil
  then show ?case by simp
next
  case (Cons e m)
  show ?case
  proof (cases "fst e = p")
    case True
    with Cons.prems have "map_of m p = None" "snd e = c"
      by (auto simp: map_of_eq_None_iff)
    with True invocations_of_absent [of m p ev] show ?thesis
      by (simp add: invocations_of_def deliveries_def)
  next
    case False
    with Cons show ?thesis
      by (simp add: invocations_of_def deliveries_def)
  qed
qed

lemma invocations_of_Cons:
  "invocations_of s (i # tr) = (if fst i = s then i # invocations_of s tr else invocations_of s tr)"
  by (simp add: invocations_of_def)

lemma invocations_of_none: "\<forall>i \<in> set tr. s < fst i \<Longrightarrow> invocations_of s tr = []"
  by (induction tr) (auto simp: invocations_of_def)

lemma entry_trace [simp]: "entry d s c (w\<lparr>trace := tr\<rparr>) = entry d s c w"
  by (simp add: entry_def)

lemma entry_registered: "entry d s c w \<Longrightarrow> registered d s w"
  by (force simp: entry_def registered_def map_contains_def dest: map_of_SomeD)

lemma cancel_entry:
  assumes "cancel s' w = Inr w'" and "entry d s c w"
  shows "entry d s c w' \<or> cancelled s w'"
proof (cases "s' = s")
  case True
  with assms(1) show ?thesis by (auto dest: cancel_cancelled)
next
  case False
  with assms show ?thesis
    by (auto simp: entry_def cancel_def SpecificDispatcher_unsubscribe_def map_of_map_erase
        split: option.splits sum.splits)
qed

lemma subscribe_entry:
  assumes "consistent w" and "EventDispatcher_subscribe t q p c' w = Inr w'" and "entry d s c w"
  shows "entry d s c w'"
proof -
  from assms(3) obtain sd where sd: "dispatchers w d = Some sd" "map_of (m_callbacks sd) s = Some c"
    by (auto simp: entry_def)
  from entry_registered [OF assms(3)] assms(1) have "subscriptions w s \<noteq> None"
    unfolding consistent_def registered_def by fastforce
  with subscribe_fresh [OF assms(2)] have "s \<noteq> p" by auto
  from subscribe_keeps_entry [OF assms(2) sd this] show ?thesis
    by (simp add: entry_def)
qed

lemma do_action_entry:
  assumes "consistent w" and "do_action a w = Inr w'" and "entry d s c w \<or> cancelled s w"
  shows "entry d s c w' \<or> cancelled s w'"
  using assms(3)
proof
  assume "cancelled s w"
  then have "cancelled s w'" using assms(2) by (rule do_action_cancelled)
  then show ?thesis ..
next
  assume e: "entry d s c w"
  show ?thesis
  proof (cases a)
    case (Cancel s')
    with assms(2) have "cancel s' w = Inr w'" by simp
    then show ?thesis using e by (rule cancel_entry)
  next
    case (Subscribe t q p c')
    with assms(2) have "EventDispatcher_subscribe t q p c' w = Inr w'" by simp
    with assms(1) have "entry d s c w'" using e by (rule subscribe_entry)
    then show ?thesis ..
  qed
qed

lemma invoke_entry:
  assumes "consistent w" and "invoke k c0 ev w = Inr w'" and "entry d s c w"
  shows "entry d s c w' \<or> cancelled s w'"
proof -
  let ?P = "\<lambda>x. consistent x \<and> (entry d s c x \<or> cancelled s x)"
  have "?P w'"
  proof (rule run_body_preserves [where P = ?P])
    show "?P x'" if "?P x" "do_action a x = Inr x'" for a x x'
      using that do_action_consistent [of x a x'] do_action_entry [of x a x' d s c] by blast
    show "?P (w\<lparr>trace := trace w @ [(k, cb_id c0, ev)]\<rparr>)"
      using assms(1) assms(3) by simp
    show "run_body (cb_body c0) (w\<lparr>trace := trace w @ [(k, cb_id c0, ev)]\<rparr>) = Inr w'"
      using assms(2) by (simp add: invoke_def)
  qed
  then show ?thesis by simp
qed

lemma publish_from_pass:
  assumes "consistent w" and "publish_from d ev k w = Inr w'"
  shows "\<exists>tr. trace w' = trace w @ tr \<and> (\<forall>i \<in> set tr. k \<le> fst i) \<and> sorted_wrt (<) (map fst tr)
           \<and> (\<forall>s c. k \<le> s \<longrightarrow> entry d s c w \<longrightarrow> registered d s w' \<longrightarrow>
                  invocations_of s tr = [(s, cb_id c, ev)])"
  using assms
proof (induction d ev k w rule: publish_from.induct)
  case (1 d ev k w)
  from "1.prems"(2) obtain sd c0 w1 sd1 where
    s: "dispatchers w d = Some sd" "map_of (m_callbacks sd) k = Some c0"
      "invoke k c0 ev w = Inr w1" "dispatchers w1 d = Some sd1"
      "map_contains k (m_callbacks sd1)"
    and r: "(case map_next k (m_callbacks sd1) of None \<Rightarrow> Inr w1 | Some k' \<Rightarrow> publish_from d ev k' w1) = Inr w'"
    by (subst (asm) publish_from.simps) (auto split: option.splits sum.splits if_splits)
  have c1: "consistent w1" using "1.prems"(1) s(3) by (rule invoke_consistent)
  have t1: "trace w1 = trace w @ [(k, cb_id c0, ev)]" using s(3) by (rule invoke_trace)
  have srt1: "sorted_wrt (<) (map fst (m_callbacks sd1))" using c1 s(4) by (rule consistent_sorted)
  have own: "c = c0" if "entry d k c w" for c
    using that s(1) s(2) by (simp add: entry_def)
  show ?case
  proof (cases "map_next k (m_callbacks sd1)")
    case None
    with r have w': "w' = w1" by simp
    have "invocations_of s [(k, cb_id c0, ev)] = [(s, cb_id c, ev)]"
      if "k \<le> s" "entry d s c w" "registered d s w1" for s c
    proof (cases "s = k")
      case True
      with own that(2) show ?thesis by (simp add: invocations_of_def)
    next
      case False
      with that(1) have "k < s" by simp
      moreover from that(3) s(4) have "map_contains s (m_callbacks sd1)"
        by (simp add: registered_def)
      ultimately show ?thesis
        using map_next_least [OF srt1, of s k] None by simp
    qed
    then show ?thesis
      by (intro exI [where x = "[(k, cb_id c0, ev)]"]) (simp add: w' t1)
  next
    case (Some k')
    with r have run: "publish_from d ev k' w1 = Inr w'" by simp
    have lt: "k < k'" using Some by (simp add: map_next_SomeD)
    from "1.IH" [OF s(1) s(2) s(3) s(4) _ Some c1 run] s(5) obtain tr1 where
      tr1: "trace w' = trace w1 @ tr1" "\<forall>i \<in> set tr1. k' \<le> fst i" "sorted_wrt (<) (map fst tr1)"
      and all1: "\<And>s c. k' \<le> s \<Longrightarrow> entry d s c w1 \<Longrightarrow> registered d s w' \<Longrightarrow>
                  invocations_of s tr1 = [(s, cb_id c, ev)]"
      by auto
    let ?tr = "(k, cb_id c0, ev) # tr1"
    have above: "\<forall>i \<in> set tr1. k < fst i"
      using tr1(2) lt by auto
    have c': "consistent w'" using c1 run by (rule publish_from_consistent)
    have "invocations_of s ?tr = [(s, cb_id c, ev)]"
      if "k \<le> s" "entry d s c w" "registered d s w'" for s c
    proof (cases "s = k")
      case True
      with own that(2) invocations_of_none [OF above] show ?thesis
        by (simp add: invocations_of_Cons)
    next
      case False
      with that(1) have ks: "k < s" by simp
      from invoke_entry [OF "1.prems"(1) s(3) that(2)] have e1: "entry d s c w1"
      proof
        assume "cancelled s w1"
        then have "cancelled s w'" using run by (rule publish_from_cancelled)
        with c' that(3) show ?thesis by (simp add: cancelled_not_registered)
      qed
      then have "map_contains s (m_callbacks sd1)"
        using s(4) entry_registered [of d s c w1] by (simp add: registered_def)
      from map_next_least [OF srt1 this ks] Some have "k' \<le> s" by simp
      from all1 [OF this e1 that(3)] False show ?thesis
        by (simp add: invocations_of_Cons)
    qed
    moreover have "trace w' = trace w @ ?tr" by (simp add: tr1(1) t1)
    moreover have "\<forall>i \<in> set ?tr. k \<le> fst i" using above by auto
    moreover have "sorted_wrt (<) (map fst ?tr)" using above tr1(3) by auto
    ultimately show ?thesis by blast
  qed
qed

lemma publish_pass:
  assumes "consistent w" and "channel_of t w = Some d" and "EventDispatcher_publish t q ev w = Inr w'"
  shows "trace w' = trace w @ added w w' \<and> sorted_wrt (<) (map fst (added w w'))
       \<and> (entry d s c w \<longrightarrow> registered d s w' \<longrightarrow> invocations_of s (added w w') = [(s, cb_id c, ev)])"
proof -
  from assms(3) dispatcher_found [OF assms(2)] have p: "SpecificDispatcher_publish d ev w = Inr w'"
    by (simp add: EventDispatcher_publish_def)
  then obtain sd where sd: "dispatchers w d = Some sd"
    by (auto simp: SpecificDispatcher_publish_def split: option.splits)
  show ?thesis
  proof (cases "m_callbacks sd")
    case Nil
    with p sd show ?thesis
      by (simp add: SpecificDispatcher_publish_def map_begin_def added_def entry_def)
  next
    case (Cons e m)
    with p sd have run: "publish_from d ev (fst e) w = Inr w'"
      by (simp add: SpecificDispatcher_publish_def map_begin_def)
    from publish_from_pass [OF assms(1) run] obtain tr where
      tr: "trace w' = trace w @ tr" "sorted_wrt (<) (map fst tr)"
      and all: "\<And>s c. fst e \<le> s \<Longrightarrow> entry d s c w \<Longrightarrow> registered d s w' \<Longrightarrow>
                  invocations_of s tr = [(s, cb_id c, ev)]"
      by auto
    have a: "added w w' = tr" by (simp add: added_def tr(1))
    have "fst e \<le> s" if "entry d s c w"
    proof -
      from that sd have "map_contains s (m_callbacks sd)"
        using entry_registered [of d s c w] by (simp add: registered_def)
      with consistent_sorted [OF assms(1) sd] Cons show ?thesis
        by (auto simp: map_contains_def)
    qed
    with all tr show ?thesis by (simp add: a)
  qed
qed

text \<open>
  A pass in which one callback changes the subscriptions. The loop runs through the quiet
  callbacks before it as above; after the callback has run, the loop goes on from its key
  in the map as the callback left it. When the key is no longer there, the iterator the
  loop increments is the one of an erased element.
\<close>

lemma publish_from_quiet_step:
  assumes "dispatchers w d = Some sd"
    and "m_callbacks sd = pre @ (k, c) # e # post"
    and "sorted_wrt (<) (map fst (m_callbacks sd))"
    and "quiet c"
  shows "publish_from d ev k w = publish_from d ev (fst e) (w\<lparr>trace := trace w @ [(k, cb_id c, ev)]\<rparr>)"
proof -
  have mo: "map_of (m_callbacks sd) k = Some c"
    using assms(3) unfolding assms(2) by (rule map_of_mid)
  have mn: "map_next k (m_callbacks sd) = Some (fst e)"
    using assms(3) unfolding assms(2) by (simp only: map_next_mid) (simp add: map_begin_def)
  have mc: "map_contains k (m_callbacks sd)"
    by (simp add: assms(2) map_contains_def)
  show ?thesis
    by (subst publish_from.simps)
      (simp add: assms(1) mo mn mc invoke_quiet [OF assms(4)])
qed

lemma publish_from_quiet_prefix:
  assumes "dispatchers w d = Some sd"
    and "m_callbacks sd = pre0 @ (k0, c0) # mid @ (k, c) # post"
    and "sorted_wrt (<) (map fst (m_callbacks sd))"
    and "\<forall>e \<in> set ((k0, c0) # mid). quiet (snd e)"
  shows "publish_from d ev k0 w
       = publish_from d ev k (w\<lparr>trace := trace w @ deliveries ev ((k0, c0) # mid)\<rparr>)"
  using assms
proof (induction mid arbitrary: pre0 k0 c0 w)
  case Nil
  have "publish_from d ev k0 w
      = publish_from d ev (fst (k, c)) (w\<lparr>trace := trace w @ [(k0, cb_id c0, ev)]\<rparr>)"
  proof (rule publish_from_quiet_step [where pre = pre0 and post = post])
    show "dispatchers w d = Some sd" by (rule Nil.prems(1))
    show "m_callbacks sd = pre0 @ (k0, c0) # (k, c) # post" using Nil.prems(2) by simp
    show "sorted_wrt (<) (map fst (m_callbacks sd))" by (rule Nil.prems(3))
    show "quiet c0" using Nil.prems(4) by simp
  qed
  then show ?case by (simp add: deliveries_def)
next
  case (Cons e mid)
  let ?w1 = "w\<lparr>trace := trace w @ [(k0, cb_id c0, ev)]\<rparr>"
  have step: "publish_from d ev k0 w = publish_from d ev (fst e) ?w1"
  proof (rule publish_from_quiet_step [where pre = pre0 and post = "mid @ (k, c) # post"])
    show "dispatchers w d = Some sd" by (rule Cons.prems(1))
    show "m_callbacks sd = pre0 @ (k0, c0) # e # mid @ (k, c) # post" using Cons.prems(2) by simp
    show "sorted_wrt (<) (map fst (m_callbacks sd))" by (rule Cons.prems(3))
    show "quiet c0" using Cons.prems(4) by simp
  qed
  have d1: "dispatchers ?w1 d = Some sd" using Cons.prems(1) by simp
  have m1: "m_callbacks sd = (pre0 @ [(k0, c0)]) @ (fst e, snd e) # mid @ (k, c) # post"
    using Cons.prems(2) by simp
  have q1: "\<forall>x \<in> set ((fst e, snd e) # mid). quiet (snd x)"
    using Cons.prems(4) by simp
  have "publish_from d ev (fst e) ?w1
      = publish_from d ev k (?w1\<lparr>trace := trace ?w1 @ deliveries ev ((fst e, snd e) # mid)\<rparr>)"
    by (rule Cons.IH [OF d1 m1 Cons.prems(3) q1])
  with step show ?case by (simp add: deliveries_def)
qed

lemma publish_from_then_quiet:
  assumes "dispatchers w d = Some sd" and "map_of (m_callbacks sd) k = Some c"
    and "invoke k c ev w = Inr w1" and "dispatchers w1 d = Some sd1"
    and "m_callbacks sd1 = pre1 @ (k, c1) # post1"
    and "sorted_wrt (<) (map fst (m_callbacks sd1))"
    and "\<forall>e \<in> set post1. quiet (snd e)"
  shows "publish_from d ev k w = Inr (w1\<lparr>trace := trace w1 @ deliveries ev post1\<rparr>)"
proof -
  have mc: "map_contains k (m_callbacks sd1)"
    by (simp add: assms(5) map_contains_def)
  have mn: "map_next k (m_callbacks sd1) = map_begin post1"
    using assms(6) unfolding assms(5) by (rule map_next_mid)
  have step: "publish_from d ev k w
      = (case map_begin post1 of None \<Rightarrow> Inr w1 | Some k' \<Rightarrow> publish_from d ev k' w1)"
    by (subst publish_from.simps) (simp add: assms(1) assms(2) assms(3) assms(4) mc mn)
  show ?thesis
  proof (cases post1)
    case Nil
    with step show ?thesis by (simp add: map_begin_def deliveries_def)
  next
    case (Cons e rest)
    have m: "m_callbacks sd1 = (pre1 @ [(k, c1)]) @ (fst e, snd e) # rest"
      using assms(5) Cons by simp
    have q: "\<forall>x \<in> set ((fst e, snd e) # rest). quiet (snd x)"
      using assms(7) Cons by simp
    from publish_from_quiet [OF assms(4) m assms(6) q, of ev] step Cons show ?thesis
      by (simp add: map_begin_def)
  qed
qed

lemma publish_reaches:
  assumes "channel_of t w = Some d" and "dispatchers w d = Some sd"
    and "m_callbacks sd = pre @ (k, c) # post"
    and "sorted_wrt (<) (map fst (m_callbacks sd))"
    and "\<forall>e \<in> set pre. quiet (snd e)"
  shows "EventDispatcher_publish t q ev w
       = publish_from d ev k (w\<lparr>trace := trace w @ deliveries ev pre\<rparr>)"
proof -
  have p: "EventDispatcher_publish t q ev w = SpecificDispatcher_publish d ev w"
    using dispatcher_found [OF assms(1)] by (simp add: EventDispatcher_publish_def)
  show ?thesis
  proof (cases pre)
    case Nil
    with p assms(2) assms(3) show ?thesis
      by (simp add: SpecificDispatcher_publish_def map_begin_def deliveries_def)
  next
    case (Cons e mid)
    have m: "m_callbacks sd = [] @ (fst e, snd e) # mid @ (k, c) # post"
      using assms(3) Cons by simp
    have qq: "\<forall>x \<in> set ((fst e, snd e) # mid). quiet (snd x)"
      using assms(5) Cons by simp
    from publish_from_quiet_prefix [OF assms(2) m assms(4) qq, of ev] p assms(2) m Cons
    show ?thesis
      by (simp add: SpecificDispatcher_publish_def map_begin_def)
  qed
qed

lemma publish_one_mutation:
  assumes "channel_of t w = Some d" and "dispatchers w d = Some sd"
    and "m_callbacks sd = pre @ (k, c) # post"
    and "sorted_wrt (<) (map fst (m_callbacks sd))"
    and "\<forall>e \<in> set pre. quiet (snd e)"
    and "invoke k c ev (w\<lparr>trace := trace w @ deliveries ev pre\<rparr>) = Inr w1"
    and "dispatchers w1 d = Some sd1"
    and "m_callbacks sd1 = pre1 @ (k, c1) # post1"
    and "sorted_wrt (<) (map fst (m_callbacks sd1))"
    and "\<forall>e \<in> set post1. quiet (snd e)"
  shows "EventDispatcher_publish t q ev w = Inr (w1\<lparr>trace := trace w1 @ deliveries ev post1\<rparr>)"
proof -
  let ?w2 = "w\<lparr>trace := trace w @ deliveries ev pre\<rparr>"
  have d2: "dispatchers ?w2 d = Some sd" using assms(2) by simp
  have mo: "map_of (m_callbacks sd) k = Some c"
    using assms(4) unfolding assms(3) by (rule map_of_mid)
  from publish_from_then_quiet [OF d2 mo assms(6) assms(7) assms(8) assms(9) assms(10)]
    publish_reaches [OF assms(1) assms(2) assms(3) assms(4) assms(5), of q ev]
  show ?thesis by simp
qed

lemma publish_one_fault:
  assumes "channel_of t w = Some d" and "dispatchers w d = Some sd"
    and "m_callbacks sd = pre @ (k, c) # post"
    and "sorted_wrt (<) (map fst (m_callbacks sd))"
    and "\<forall>e \<in> set pre. quiet (snd e)"
    and "invoke k c ev (w\<lparr>trace := trace w @ deliveries ev pre\<rparr>) = Inr w1"
    and "dispatchers w1 d = Some sd1"
    and "\<not> map_contains k (m_callbacks sd1)"
  shows "EventDispatcher_publish t q ev w = Inl InvalidIterator"
proof -
  let ?w2 = "w\<lparr>trace := trace w @ deliveries ev pre\<rparr>"
  have mo: "map_of (m_callbacks sd) k = Some c"
    using assms(4) unfolding assms(3) by (rule map_of_mid)
  have "publish_from d ev k ?w2 = Inl InvalidIterator"
    by (subst publish_from.simps) (simp add: assms(2) mo assms(6) assms(7) assms(8))
  with publish_reaches [OF assms(1) assms(2) assms(3) assms(4) assms(5), of q ev]
  show ?thesis by simp
qed

lemma publish_cancel_other:
  assumes "consistent w" and "channel_of t w = Some d" and "dispatchers w d = Some sd"
    and "m_callbacks sd = pre @ (k, c) # post" and "cb_body c = [Cancel h]" and "h \<noteq> k"
    and "\<forall>e \<in> set (pre @ post). quiet (snd e)"
    and "subscriptions w h = Some sub" and "active sub"
  shows "\<exists>w'. EventDispatcher_publish t q ev w = Inr w'
           \<and> trace w' = trace w @ deliveries ev (pre @ (k, c) # map_erase h post)
           \<and> cancelled h w'"
proof -
  let ?w2 = "w\<lparr>trace := trace w @ deliveries ev pre @ [(k, cb_id c, ev)]\<rparr>"
  have c2: "consistent ?w2" using assms(1) by simp
  have srt: "sorted_wrt (<) (map fst (m_callbacks sd))"
    using assms(1) assms(3) by (rule consistent_sorted)
  from assms(9) obtain d' where p: "m_specific_dispatcher sub = Some d'"
    by (auto simp: active_def)
  with assms(1) assms(8) obtain sd' where d': "dispatchers w d' = Some sd'"
    and mc: "map_contains h (m_callbacks sd')"
    unfolding consistent_def by blast
  have d2: "dispatchers ?w2 d' = Some sd'" using d' by simp
  define w1 where "w1 = ?w2\<lparr>dispatchers := (dispatchers ?w2)(d' \<mapsto> sd'\<lparr>m_callbacks := map_erase h (m_callbacks sd')\<rparr>),
                        subscriptions := (subscriptions ?w2)(h \<mapsto> sub\<lparr>m_specific_dispatcher := None\<rparr>)\<rparr>"
  from cancel_registered [OF c2 d2 mc] assms(8) have cn: "cancel h ?w2 = Inr w1"
    by (simp add: w1_def)
  have inv: "invoke k c ev (w\<lparr>trace := trace w @ deliveries ev pre\<rparr>) = Inr w1"
    using cn by (simp add: invoke_def assms(5))
  have same: "map_erase h (m_callbacks sd) = m_callbacks sd" if "d \<noteq> d'"
  proof (rule map_erase_absent, rule notI)
    assume "map_contains h (m_callbacks sd)"
    with assms(1) assms(3) obtain sub' where "subscriptions w h = Some sub'"
      "m_specific_dispatcher sub' = Some d"
      unfolding consistent_def by blast
    with assms(8) p that show False by simp
  qed
  define sd1 where "sd1 = sd\<lparr>m_callbacks := map_erase h (m_callbacks sd)\<rparr>"
  have d1: "dispatchers w1 d = Some sd1"
  proof (cases "d = d'")
    case True
    with d' assms(3) show ?thesis by (simp add: w1_def sd1_def)
  next
    case False
    with assms(3) same show ?thesis by (simp add: w1_def sd1_def)
  qed
  have m1: "m_callbacks sd1 = map_erase h pre @ (k, c) # map_erase h post"
    using assms(6) by (simp add: sd1_def assms(4) map_erase_def)
  have s1: "sorted_wrt (<) (map fst (m_callbacks sd1))"
    using srt by (simp add: sd1_def sorted_map_erase)
  have q1: "\<forall>e \<in> set (map_erase h post). quiet (snd e)"
    using assms(7) by (simp add: map_erase_def)
  have qp: "\<forall>e \<in> set pre. quiet (snd e)" using assms(7) by simp
  have r: "EventDispatcher_publish t q ev w
         = Inr (w1\<lparr>trace := trace w1 @ deliveries ev (map_erase h post)\<rparr>)"
    by (rule publish_one_mutation [OF assms(2) assms(3) assms(4) srt qp inv d1 m1 s1 q1])
  show ?thesis
  proof (intro exI conjI)
    show "EventDispatcher_publish t q ev w
         = Inr (w1\<lparr>trace := trace w1 @ deliveries ev (map_erase h post)\<rparr>)" by (rule r)
    show "trace (w1\<lparr>trace := trace w1 @ deliveries ev (map_erase h post)\<rparr>)
        = trace w @ deliveries ev (pre @ (k, c) # map_erase h post)"
      by (simp add: w1_def deliveries_def)
    show "cancelled h (w1\<lparr>trace := trace w1 @ deliveries ev (map_erase h post)\<rparr>)"
      by (simp add: w1_def cancelled_def)
  qed
qed

lemma publish_cancel_self:
  assumes "consistent w" and "channel_of t w = Some d" and "dispatchers w d = Some sd"
    and "m_callbacks sd = pre @ (k, c) # post" and "cb_body c = [Cancel k]"
    and "\<forall>e \<in> set pre. quiet (snd e)"
  shows "EventDispatcher_publish t q ev w = Inl InvalidIterator"
proof -
  let ?w2 = "w\<lparr>trace := trace w @ deliveries ev pre @ [(k, cb_id c, ev)]\<rparr>"
  have c2: "consistent ?w2" using assms(1) by simp
  have srt: "sorted_wrt (<) (map fst (m_callbacks sd))"
    using assms(1) assms(3) by (rule consistent_sorted)
  have d2: "dispatchers ?w2 d = Some sd" using assms(3) by simp
  have mc: "map_contains k (m_callbacks sd)"
    by (simp add: assms(4) map_contains_def)
  from cancel_registered [OF c2 d2 mc] obtain sub where
    cn: "cancel k ?w2 = Inr (?w2\<lparr>dispatchers := (dispatchers ?w2)(d \<mapsto> sd\<lparr>m_callbacks := map_erase k (m_callbacks sd)\<rparr>),
                        subscriptions := (subscriptions ?w2)(k \<mapsto> sub\<lparr>m_specific_dispatcher := None\<rparr>)\<rparr>)"
    by blast
  define w1 where "w1 = ?w2\<lparr>dispatchers := (dispatchers ?w2)(d \<mapsto> sd\<lparr>m_callbacks := map_erase k (m_callbacks sd)\<rparr>),
                        subscriptions := (subscriptions ?w2)(k \<mapsto> sub\<lparr>m_specific_dispatcher := None\<rparr>)\<rparr>"
  have inv: "invoke k c ev (w\<lparr>trace := trace w @ deliveries ev pre\<rparr>) = Inr w1"
    using cn by (simp add: invoke_def assms(5) w1_def)
  have d1: "dispatchers w1 d = Some (sd\<lparr>m_callbacks := map_erase k (m_callbacks sd)\<rparr>)"
    by (simp add: w1_def)
  have gone: "\<not> map_contains k (m_callbacks (sd\<lparr>m_callbacks := map_erase k (m_callbacks sd)\<rparr>))"
    by (simp add: map_contains_erase)
  show ?thesis
    by (rule publish_one_fault [OF assms(2) assms(3) assms(4) srt assms(6) inv d1 gone])
qed

lemma publish_subscribe_fresh:
  assumes "consistent w" and "registry_wf w"
    and "channel_of t w = Some d" and "dispatchers w d = Some sd"
    and "m_callbacks sd = pre @ (k, c) # post" and "cb_body c = [Subscribe t2 q2 p c2]"
    and "quiet c2" and "\<forall>e \<in> set (pre @ post). quiet (snd e)"
    and "subscriptions w p = None"
    and "channel_of t2 w \<noteq> None \<or> dispatchers w q2 = None"
  shows "\<exists>w'. EventDispatcher_publish t q ev w = Inr w'
           \<and> trace w' = trace w @ deliveries ev
                (pre @ (k, c) # (if t2 = t \<and> k < p then map_insert p c2 post else post))
           \<and> (\<exists>sub. subscriptions w' p = Some sub \<and> active sub)"
proof -
  let ?w2 = "w\<lparr>trace := trace w @ deliveries ev pre @ [(k, cb_id c, ev)]\<rparr>"
  have srt: "sorted_wrt (<) (map fst (m_callbacks sd))"
    using assms(1) assms(4) by (rule consistent_sorted)
  have qp: "\<forall>e \<in> set pre. quiet (snd e)" using assms(8) by simp
  have qpost: "\<forall>e \<in> set post. quiet (snd e)" using assms(8) by simp
  have below: "\<forall>e \<in> set pre. fst e < k"
    using srt unfolding assms(5) by (rule sorted_mid_below)
  have mo: "map_of (m_callbacks sd) k = Some c"
    using srt unfolding assms(5) by (rule map_of_mid)
  have kp: "k \<noteq> p"
    using registered_has_pointer [OF assms(1) assms(4) mo] assms(9) by auto
  obtain d2 wa where ga: "EventDispatcher_dispatcher t2 q2 ?w2 = Inr (d2, wa)"
    and subs: "subscriptions wa = subscriptions w" and tr: "trace wa = trace ?w2"
    and old: "dispatchers wa d = Some sd" and same: "d2 = d \<longleftrightarrow> t2 = t"
    and live: "dispatchers wa d2 \<noteq> None"
  proof (cases "channel_of t2 w")
    case (Some d2)
    then have ch2: "channel_of t2 ?w2 = Some d2" by (simp add: channel_of_def)
    have "d2 = d \<longleftrightarrow> t2 = t"
      using channel_inj [OF assms(2) assms(3), of t2] Some assms(3) by auto
    moreover have "dispatchers ?w2 d2 \<noteq> None"
      using channel_live [OF assms(2) Some] by simp
    ultimately show ?thesis
      using that [of d2 ?w2] dispatcher_found [OF ch2, of q2] assms(4) by simp
  next
    case None
    with assms(10) have free: "dispatchers w q2 = None" by simp
    from None assms(3) have ne: "t2 \<noteq> t" by auto
    from free assms(4) have qd: "q2 \<noteq> d" by auto
    from assms(3) obtain ed where ed: "event_dispatcher w = Some ed"
      by (auto simp: channel_of_def split: option.splits)
    with None have no: "map_of (m_dispatchers ed) t2 = None"
      by (simp add: channel_of_def)
    let ?wa = "?w2\<lparr>dispatchers := (dispatchers ?w2)(q2 \<mapsto> \<lparr>m_callbacks = []\<rparr>),
                   event_dispatcher := Some (ed\<lparr>m_dispatchers := map_insert t2 q2 (m_dispatchers ed)\<rparr>)\<rparr>"
    have "EventDispatcher_dispatcher t2 q2 ?w2 = Inr (q2, ?wa)"
      using ed no free by (simp add: EventDispatcher_dispatcher_def)
    then show ?thesis
      using that [of q2 ?wa] assms(4) qd ne by simp
  qed
  from live obtain sd2 where sd2: "dispatchers wa d2 = Some sd2" by auto
  define w1 where "w1 = wa\<lparr>subscriptions := (subscriptions wa)(p \<mapsto> \<lparr>m_specific_dispatcher = Some d2\<rparr>),
                       dispatchers := (dispatchers wa)(d2 \<mapsto> sd2\<lparr>m_callbacks := map_insert p c2 (m_callbacks sd2)\<rparr>)\<rparr>"
  have sb: "EventDispatcher_subscribe t2 q2 p c2 ?w2 = Inr w1"
    using ga sd2 subs assms(9)
    by (simp add: EventDispatcher_subscribe_def SpecificDispatcher_subscribe_def w1_def)
  have inv: "invoke k c ev (w\<lparr>trace := trace w @ deliveries ev pre\<rparr>) = Inr w1"
    using sb by (simp add: invoke_def assms(6))
  have tr1: "trace w1 = trace w @ deliveries ev pre @ [(k, cb_id c, ev)]"
    using tr by (simp add: w1_def)
  have act: "\<exists>sub. subscriptions w1 p = Some sub \<and> active sub"
    by (simp add: w1_def active_def)
  show ?thesis
  proof (cases "t2 = t")
    case False
    with same have dd: "d2 \<noteq> d" by simp
    then have d1: "dispatchers w1 d = Some sd" using old by (simp add: w1_def)
    have r: "EventDispatcher_publish t q ev w = Inr (w1\<lparr>trace := trace w1 @ deliveries ev post\<rparr>)"
      by (rule publish_one_mutation [OF assms(3) assms(4) assms(5) srt qp inv d1 assms(5) srt qpost])
    show ?thesis
    proof (intro exI conjI)
      show "EventDispatcher_publish t q ev w = Inr (w1\<lparr>trace := trace w1 @ deliveries ev post\<rparr>)"
        by (rule r)
      show "trace (w1\<lparr>trace := trace w1 @ deliveries ev post\<rparr>)
          = trace w @ deliveries ev (pre @ (k, c) # (if t2 = t \<and> k < p then map_insert p c2 post else post))"
        using False by (simp add: tr1 deliveries_def)
      show "subscriptions (w1\<lparr>trace := trace w1 @ deliveries ev post\<rparr>) p = Some \<lparr>m_specific_dispatcher = Some d2\<rparr>"
        by (simp add: w1_def)
      show "active \<lparr>m_specific_dispatcher = Some d2\<rparr>"
        by (simp add: active_def)
    qed
  next
    case True
    with same have dd: "d2 = d" by simp
    with sd2 old have ss: "sd2 = sd" by simp
    define sd1 where "sd1 = sd\<lparr>m_callbacks := map_insert p c2 (m_callbacks sd)\<rparr>"
    have d1: "dispatchers w1 d = Some sd1"
      by (simp add: w1_def dd ss sd1_def)
    have s1: "sorted_wrt (<) (map fst (m_callbacks sd1))"
      using srt by (simp add: sd1_def sorted_map_insert)
    show ?thesis
    proof (cases "k < p")
      case True
      have m1: "m_callbacks sd1 = pre @ (k, c) # map_insert p c2 post"
        using True below by (simp add: sd1_def assms(5) map_insert_after)
      have q1: "\<forall>e \<in> set (map_insert p c2 post). quiet (snd e)"
        using qpost assms(7) set_map_insert_subset [of p c2 post] by auto
      have r: "EventDispatcher_publish t q ev w
             = Inr (w1\<lparr>trace := trace w1 @ deliveries ev (map_insert p c2 post)\<rparr>)"
        by (rule publish_one_mutation [OF assms(3) assms(4) assms(5) srt qp inv d1 m1 s1 q1])
      show ?thesis
      proof (intro exI conjI)
        show "EventDispatcher_publish t q ev w
             = Inr (w1\<lparr>trace := trace w1 @ deliveries ev (map_insert p c2 post)\<rparr>)"
          by (rule r)
        show "trace (w1\<lparr>trace := trace w1 @ deliveries ev (map_insert p c2 post)\<rparr>)
            = trace w @ deliveries ev (pre @ (k, c) # (if t2 = t \<and> k < p then map_insert p c2 post else post))"
          using True \<open>t2 = t\<close> by (simp add: tr1 deliveries_def)
        show "subscriptions (w1\<lparr>trace := trace w1 @ deliveries ev (map_insert p c2 post)\<rparr>) p = Some \<lparr>m_specific_dispatcher = Some d2\<rparr>"
          by (simp add: w1_def)
        show "active \<lparr>m_specific_dispatcher = Some d2\<rparr>"
          by (simp add: active_def)
      qed
    next
      case False
      with kp have pk: "p < k" by simp
      have m1: "m_callbacks sd1 = map_insert p c2 pre @ (k, c) # post"
        using pk by (simp add: sd1_def assms(5) map_insert_before)
      have r: "EventDispatcher_publish t q ev w
             = Inr (w1\<lparr>trace := trace w1 @ deliveries ev post\<rparr>)"
        by (rule publish_one_mutation [OF assms(3) assms(4) assms(5) srt qp inv d1 m1 s1 qpost])
      show ?thesis
      proof (intro exI conjI)
        show "EventDispatcher_publish t q ev w
             = Inr (w1\<lparr>trace := trace w1 @ deliveries ev post\<rparr>)"
          by (rule r)
        show "trace (w1\<lparr>trace := trace w1 @ deliveries ev post\<rparr>)
            = trace w @ deliveries ev (pre @ (k, c) # (if t2 = t \<and> k < p then map_insert p c2 post else post))"
          using False by (simp add: tr1 deliveries_def)
        show "subscriptions (w1\<lparr>trace := trace w1 @ deliveries ev post\<rparr>) p = Some \<lparr>m_specific_dispatcher = Some d2\<rparr>"
          by (simp add: w1_def)
        show "active \<lparr>m_specific_dispatcher = Some d2\<rparr>"
          by (simp add: active_def)
      qed
    qed
  qed
qed

section \<open>Handles that stay active\<close>

text \<open>
  Destroying the \<^verbatim>\<open>EventDispatcher\<close> while a handle is active runs into the loop of
  \<^verbatim>\<open>~SpecificDispatcher\<close>. As long as \<^verbatim>\<open>cancel()\<close> is not called on a handle, neither by
  the caller nor by a callback, the handle is left as it is.
\<close>

lemma teardown_faults:
  assumes "consistent w" and "registry_wf w" and "subscriptions w s = Some sub" and "active sub"
  shows "EventDispatcher_destroy w = Inl InvalidIterator"
proof -
  from assms(1) assms(3) assms(4) obtain d sd where d: "dispatchers w d = Some sd"
    "map_contains s (m_callbacks sd)"
    unfolding consistent_def active_def by fastforce
  then have ne: "m_callbacks sd \<noteq> []" by (auto simp: map_contains_def)
  from d(1) assms(2) obtain ed where ed: "event_dispatcher w = Some ed"
    by (cases "event_dispatcher w") (auto simp: registry_wf_def)
  with assms(2) have wf: "distinct (map snd (m_dispatchers ed))"
    "dom (dispatchers w) = set (map snd (m_dispatchers ed))"
    by (simp_all add: registry_wf_def)
  from d(1) wf(2) have "d \<in> set (map snd (m_dispatchers ed))" by auto
  from destroy_all_faults [OF assms(1) wf(1) _ this d(1) ne] wf(2) ed
  show ?thesis by (simp add: EventDispatcher_destroy_def)
qed

lemma never_cancels_trace [simp]: "never_cancels s (w\<lparr>trace := tr\<rparr>) = never_cancels s w"
  by (simp add: never_cancels_def)

lemma cancel_spared:
  assumes "h \<noteq> s" and "never_cancels s w" and "cancel h w = Inr w'"
  shows "never_cancels s w' \<and> subscriptions w' s = subscriptions w s"
proof -
  from assms(3) obtain sub d sd where sd: "dispatchers w d = Some sd"
    and w': "w' = w\<lparr>dispatchers := (dispatchers w)(d \<mapsto> sd\<lparr>m_callbacks := map_erase h (m_callbacks sd)\<rparr>),
                   subscriptions := (subscriptions w)(h \<mapsto> sub\<lparr>m_specific_dispatcher := None\<rparr>)\<rparr>"
    by (auto simp: cancel_def SpecificDispatcher_unsubscribe_def split: option.splits sum.splits)
  have "never_cancels s w'"
    unfolding never_cancels_def
  proof (intro allI impI)
    fix x sx k c assume a: "dispatchers w' x = Some sx" and b: "(k, c) \<in> set (m_callbacks sx)"
    show "s \<notin> cancels_of c"
    proof (cases "x = d")
      case True
      with a b have "(k, c) \<in> set (m_callbacks sd)" by (auto simp: w' map_erase_def)
      with assms(2) sd show ?thesis unfolding never_cancels_def by blast
    next
      case False
      with a have "dispatchers w x = Some sx" by (simp add: w')
      with assms(2) b show ?thesis unfolding never_cancels_def by blast
    qed
  qed
  with assms(1) show ?thesis by (simp add: w')
qed

lemma dispatcher_spared:
  assumes "never_cancels s w" and "EventDispatcher_dispatcher t q w = Inr (d, w1)"
  shows "never_cancels s w1"
  using assms
  by (auto simp: EventDispatcher_dispatcher_def never_cancels_def split: option.splits if_splits)

lemma subscribe_spared:
  assumes "s \<notin> cancels_of c" and "never_cancels s w" and "subscriptions w s \<noteq> None"
    and "EventDispatcher_subscribe t q p c w = Inr w'"
  shows "never_cancels s w' \<and> subscriptions w' s = subscriptions w s"
proof -
  from assms(4) obtain d w1 where a: "EventDispatcher_dispatcher t q w = Inr (d, w1)"
    and b: "SpecificDispatcher_subscribe d p c w1 = Inr w'"
    by (auto simp: EventDispatcher_subscribe_def split: sum.splits prod.splits)
  have n1: "never_cancels s w1" using assms(2) a by (rule dispatcher_spared)
  have s1: "subscriptions w1 = subscriptions w" using dispatcher_frame [OF a] by simp
  from b obtain sd where sd: "dispatchers w1 d = Some sd" and free: "subscriptions w1 p = None"
    and w': "w' = w1\<lparr>subscriptions := (subscriptions w1)(p \<mapsto> \<lparr>m_specific_dispatcher = Some d\<rparr>),
                   dispatchers := (dispatchers w1)(d \<mapsto> sd\<lparr>m_callbacks := map_insert p c (m_callbacks sd)\<rparr>)\<rparr>"
    by (auto simp: SpecificDispatcher_subscribe_def split: option.splits if_splits)
  from free s1 assms(3) have ps: "p \<noteq> s" by auto
  have "never_cancels s w'"
    unfolding never_cancels_def
  proof (intro allI impI)
    fix x sx k c' assume a: "dispatchers w' x = Some sx" and b: "(k, c') \<in> set (m_callbacks sx)"
    show "s \<notin> cancels_of c'"
    proof (cases "x = d")
      case True
      with a b have "(k, c') \<in> set (map_insert p c (m_callbacks sd))" by (auto simp: w')
      then have "c' = c \<or> (k, c') \<in> set (m_callbacks sd)"
        using set_map_insert_subset [of p c "m_callbacks sd"] by auto
      with n1 sd assms(1) show ?thesis unfolding never_cancels_def by blast
    next
      case False
      with a have "dispatchers w1 x = Some sx" by (simp add: w')
      with n1 b show ?thesis unfolding never_cancels_def by blast
    qed
  qed
  with ps s1 show ?thesis by (simp add: w')
qed

lemma do_action_spared:
  assumes "s \<notin> cancels_of_action a" and "never_cancels s w \<and> subscriptions w s = Some sub"
    and "do_action a w = Inr w'"
  shows "never_cancels s w' \<and> subscriptions w' s = Some sub"
proof (cases a)
  case (Cancel h)
  with assms(1) have "h \<noteq> s" by simp
  from cancel_spared [OF this, of w w'] assms(2) assms(3) Cancel show ?thesis by simp
next
  case (Subscribe t q p c)
  with assms(1) have "s \<notin> cancels_of c" by simp
  from subscribe_spared [OF this, of w t q p w'] assms(2) assms(3) Subscribe show ?thesis by simp
qed

lemma run_body_spared:
  assumes "\<forall>a \<in> set as. s \<notin> cancels_of_action a"
    and "never_cancels s w \<and> subscriptions w s = Some sub" and "run_body as w = Inr w'"
  shows "never_cancels s w' \<and> subscriptions w' s = Some sub"
  using assms
proof (induction as arbitrary: w)
  case Nil
  then show ?case by simp
next
  case (Cons a as)
  from Cons.prems(3) obtain w1 where a: "do_action a w = Inr w1" and b: "run_body as w1 = Inr w'"
    by (auto split: sum.splits)
  from Cons.prems(1) have "s \<notin> cancels_of_action a" by simp
  from do_action_spared [OF this Cons.prems(2) a]
  have "never_cancels s w1 \<and> subscriptions w1 s = Some sub" .
  moreover from Cons.prems(1) have "\<forall>a \<in> set as. s \<notin> cancels_of_action a" by simp
  ultimately show ?case using b by (intro Cons.IH)
qed

lemma invoke_spared:
  assumes "never_cancels s w \<and> subscriptions w s = Some sub"
    and "dispatchers w d = Some sd" and "map_of (m_callbacks sd) k = Some c"
    and "invoke k c ev w = Inr w'"
  shows "never_cancels s w' \<and> subscriptions w' s = Some sub"
proof -
  from assms(3) have "(k, c) \<in> set (m_callbacks sd)" by (rule map_of_SomeD)
  with assms(1) assms(2) have "s \<notin> cancels_of c" unfolding never_cancels_def by blast
  then have "\<forall>a \<in> set (cb_body c). s \<notin> cancels_of_action a" by (cases c) simp
  moreover have "never_cancels s (w\<lparr>trace := trace w @ [(k, cb_id c, ev)]\<rparr>)
      \<and> subscriptions (w\<lparr>trace := trace w @ [(k, cb_id c, ev)]\<rparr>) s = Some sub"
    using assms(1) by simp
  ultimately show ?thesis using assms(4) unfolding invoke_def by (rule run_body_spared)
qed

lemma publish_spared:
  assumes "never_cancels s w \<and> subscriptions w s = Some sub"
    and "EventDispatcher_publish t q ev w = Inr w'"
  shows "never_cancels s w' \<and> subscriptions w' s = Some sub"
proof -
  from assms(2) obtain d w1 where a: "EventDispatcher_dispatcher t q w = Inr (d, w1)"
    and b: "SpecificDispatcher_publish d ev w1 = Inr w'"
    by (auto simp: EventDispatcher_publish_def split: sum.splits prod.splits)
  have "never_cancels s w1 \<and> subscriptions w1 s = Some sub"
    using assms(1) dispatcher_spared [OF _ a] dispatcher_frame [OF a] by simp
  then show ?thesis using b
    by (rule SpecificDispatcher_publish_preserves
        [where P = "\<lambda>x. never_cancels s x \<and> subscriptions x s = Some sub", rotated 1])
      (rule invoke_spared)
qed

lemma destroy_spared:
  assumes "h \<noteq> s" and "never_cancels s w \<and> subscriptions w s = Some sub"
    and "Subscription_destroy h w = Inr w'"
  shows "never_cancels s w' \<and> subscriptions w' s = Some sub"
proof -
  from assms(3) obtain w1 where a: "cancel h w = Inr w1"
    and w': "w' = w1\<lparr>subscriptions := (subscriptions w1)(h := None)\<rparr>"
    by (auto simp: Subscription_destroy_def split: sum.splits)
  from cancel_spared [OF assms(1) _ a] assms(2) assms(1) show ?thesis
    by (simp add: w' never_cancels_def)
qed

lemma exec_spared:
  assumes "\<forall>c \<in> set cs. spares s c"
    and "consistent w \<and> registry_wf w" and "never_cancels s w \<and> subscriptions w s = Some sub"
    and "active sub" and "exec cs w = Inr w'"
  shows "never_cancels s w' \<and> subscriptions w' s = Some sub"
  using assms
proof (induction cs arbitrary: w)
  case Nil
  then show ?case by simp
next
  case (Cons c cs)
  from Cons.prems(5) obtain w1 where a: "step c w = Inr w1" and b: "exec cs w1 = Inr w'"
    by (auto split: sum.splits)
  have inv: "consistent w1 \<and> registry_wf w1"
    using Cons.prems(2) a by (rule step_registry_wf)
  have sp: "spares s c" using Cons.prems(1) by simp
  have keep: "never_cancels s w1 \<and> subscriptions w1 s = Some sub"
  proof (cases c)
    case (Do x)
    with sp a have "s \<notin> cancels_of_action x" "do_action x w = Inr w1" by simp_all
    from do_action_spared [OF this(1) Cons.prems(3) this(2)] show ?thesis .
  next
    case (Publish t q ev)
    with a have "EventDispatcher_publish t q ev w = Inr w1" by simp
    from publish_spared [OF Cons.prems(3) this] show ?thesis .
  next
    case (Destroy h)
    with sp a have "h \<noteq> s" "Subscription_destroy h w = Inr w1" by simp_all
    from destroy_spared [OF this(1) Cons.prems(3) this(2)] show ?thesis .
  next
    case Teardown
    with a have "EventDispatcher_destroy w = Inr w1" by simp
    moreover have "EventDispatcher_destroy w = Inl InvalidIterator"
      using Cons.prems(2) Cons.prems(3) Cons.prems(4) by (auto intro: teardown_faults)
    ultimately show ?thesis by simp
  qed
  from Cons.prems(1) have "\<forall>c \<in> set cs. spares s c" by simp
  from Cons.IH [OF this inv keep Cons.prems(4) b] show ?case .
qed

section \<open>The example states are reached\<close>

text \<open>Programs that reach the example states.\<close>

lemma one_subscriber_reached: "exec [Do (Subscribe 0 0 1 (Callback 1 []))] init = Inr one_subscriber"
  by (simp add: model_defs one_subscriber_def)

lemma three_deliveries_reached:
  "exec [Do (Subscribe 0 0 1 (Callback 1 [])), Publish 0 0 0, Publish 0 0 1, Publish 0 0 2] init
     = Inr three_deliveries"
  by (simp add: model_defs three_deliveries_def one_subscriber_def publish_from.simps)

lemma after_scope_reached:
  "exec [Do (Subscribe 0 0 1 (Callback 1 [])), Publish 0 0 0, Publish 0 0 1, Publish 0 0 2, Destroy 1] init
     = Inr after_scope"
  by (simp add: model_defs after_scope_def publish_from.simps)

lemma busy_reached:
  "exec [Do (Subscribe 0 0 1 canceller), Do (Subscribe 0 0 2 (Callback 2 [])),
         Do (Subscribe 0 0 3 (Callback 3 []))] init = Inr busy"
  by (simp add: model_defs busy_def)

lemma busy_publish: "EventDispatcher_publish 0 0 7 busy = Inr after_pass"
  by (auto simp: model_defs busy_def after_pass_def canceller_def publish_from.simps fun_eq_iff)

lemma after_pass_run: "exec [Do (Cancel 1), Publish 0 0 8] after_pass = Inr after_second_pass"
  by (auto simp: model_defs after_pass_def after_second_pass_def canceller_def publish_from.simps
      fun_eq_iff)

lemma after_second_pass_reached:
  "exec ([Do (Subscribe 0 0 1 canceller), Do (Subscribe 0 0 2 (Callback 2 [])),
          Do (Subscribe 0 0 3 (Callback 3 []))] @ Publish 0 0 7 # [Do (Cancel 1), Publish 0 0 8]) init
     = Inr after_second_pass"
  by (simp only: exec_append busy_reached sum.case exec.simps(2) [of "Publish 0 0 7"] step.simps
      busy_publish after_pass_run)

lemma after_third_pass_run: "exec [Publish 0 0 10] after_third_pass = Inr after_fourth_pass"
  by (simp add: model_defs after_second_pass_def after_third_pass_def after_fourth_pass_def
      publish_from.simps)

lemma hiring_reached:
  "exec [Do (Subscribe 0 0 1 recruiter), Do (Subscribe 0 0 3 (Callback 3 []))] init = Inr hiring"
  by (simp add: model_defs hiring_def)

lemma selfish_reached: "exec [Do (Subscribe 0 0 1 (Callback 1 [Cancel 1]))] init = Inr selfish"
  by (simp add: model_defs selfish_def)

lemma after_more_run:
  "exec [Publish 0 0 3, Do (Subscribe 0 0 2 (Callback 2 [])), Publish 0 0 4, Do (Cancel 2)]
     three_deliveries = Inr after_more"
  by (auto simp: model_defs three_deliveries_def one_subscriber_def after_more_def
      publish_from.simps fun_eq_iff)

lemma torn_down_reached:
  "exec [Do (Subscribe 0 0 1 (Callback 1 [])), Do (Cancel 1), Teardown] init = Inr torn_down"
  by (auto simp: model_defs torn_down_def destroy_from.simps fun_eq_iff)

section \<open>C1: cancelling twice\<close>

text \<open>
  C1. The claim: a second \<^verbatim>\<open>cancel()\<close> on a handle, also the one the destructor makes
  after an explicit \<^verbatim>\<open>cancel()\<close>, is a no-op. The code: whenever a program ends with a
  \<^verbatim>\<open>cancel()\<close> that returns, the same program followed by one more \<^verbatim>\<open>cancel()\<close> on
  that handle, or by the handle's destructor, calls \<^verbatim>\<open>unsubscribe\<close> through the null
  \<^verbatim>\<open>m_specific_dispatcher\<close> that the first call left.
\<close>

theorem second_cancel_null_deref:
  assumes "exec (cs @ [Do (Cancel s)]) w = Inr w'"
  shows "exec (cs @ [Do (Cancel s), Do (Cancel s)]) w = Inl NullDeref
       \<and> exec (cs @ [Do (Cancel s), Destroy s]) w = Inl NullDeref"
proof -
  from assms obtain w1 where w1: "exec cs w = Inr w1" and c: "cancel s w1 = Inr w'"
    by (auto simp: exec_append split: sum.splits)
  from c have "cancel s w' = Inl NullDeref"
    by (intro cancel_null cancel_clears_pointer)
  with w1 c show ?thesis
    by (simp add: exec_append Subscription_destroy_def)
qed

theorem second_cancel_null_deref_witness:
  "observed (exec ([Do (Subscribe 0 0 1 (Callback 1 []))] @ [Do (Cancel 1)]) init) = Inr []
   \<and> exec ([Do (Subscribe 0 0 1 (Callback 1 []))] @ [Do (Cancel 1), Do (Cancel 1)]) init = Inl NullDeref
   \<and> exec ([Do (Subscribe 0 0 1 (Callback 1 []))] @ [Do (Cancel 1), Destroy 1]) init = Inl NullDeref"
proof -
  have run: "exec ([Do (Subscribe 0 0 1 (Callback 1 []))] @ [Do (Cancel 1)]) init
      = Inr \<lparr>subscriptions = [1 \<mapsto> \<lparr>m_specific_dispatcher = None\<rparr>],
             dispatchers = [0 \<mapsto> \<lparr>m_callbacks = []\<rparr>],
             event_dispatcher = Some \<lparr>m_dispatchers = [(0, 0)]\<rparr>, trace = []\<rparr>"
    by (simp add: model_defs)
  from second_cancel_null_deref [OF run] run show ?thesis
    by (simp add: observed_def)
qed

section \<open>C2: destroying the EventDispatcher\<close>

text \<open>
  C2. The claim: destroying the registry while N handles are alive does not crash, and the
  handles then behave as already inactive. The code: in every state a program can reach,
  destroying the \<^verbatim>\<open>EventDispatcher\<close> while some handle is active runs the destructor of
  that handle's \<^verbatim>\<open>SpecificDispatcher\<close>, whose loop erases the element under its own
  iterator and then increments it. Only when no handle is active does the destructor
  return; it then leaves no dispatcher behind.
\<close>

theorem teardown_with_handles:
  assumes "exec cs init = Inr w"
  shows "(subscriptions w s = Some sub \<longrightarrow> active sub \<longrightarrow>
            EventDispatcher_destroy w = Inl InvalidIterator)
       \<and> (event_dispatcher w \<noteq> None \<longrightarrow>
            (\<forall>s sub. subscriptions w s = Some sub \<longrightarrow> \<not> active sub) \<longrightarrow>
            EventDispatcher_destroy w = Inr (w\<lparr>dispatchers := Map.empty, event_dispatcher := None\<rparr>))"
proof (intro conjI impI)
  have c: "consistent w" using assms by (rule reachable_consistent)
  have r: "registry_wf w" using assms by (rule reachable_registry_wf)
  {
    assume "subscriptions w s = Some sub" "active sub"
    with c obtain d sd where d: "dispatchers w d = Some sd" "map_contains s (m_callbacks sd)"
      unfolding consistent_def active_def by fastforce
    then have ne: "m_callbacks sd \<noteq> []" by (auto simp: map_contains_def)
    from d(1) r obtain ed where ed: "event_dispatcher w = Some ed"
      by (cases "event_dispatcher w") (auto simp: registry_wf_def)
    with r have wf: "distinct (map snd (m_dispatchers ed))"
      "dom (dispatchers w) = set (map snd (m_dispatchers ed))"
      by (simp_all add: registry_wf_def)
    from d(1) wf(2) have "d \<in> set (map snd (m_dispatchers ed))" by auto
    from destroy_all_faults [OF c wf(1) _ this d(1) ne] wf(2) ed
    show "EventDispatcher_destroy w = Inl InvalidIterator"
      by (simp add: EventDispatcher_destroy_def)
  }
  {
    assume "event_dispatcher w \<noteq> None"
      and idle: "\<forall>s sub. subscriptions w s = Some sub \<longrightarrow> \<not> active sub"
    then obtain ed where ed: "event_dispatcher w = Some ed" by auto
    with r have wf: "distinct (map snd (m_dispatchers ed))"
      "dom (dispatchers w) = set (map snd (m_dispatchers ed))"
      by (simp_all add: registry_wf_def)
    have "m_callbacks sd = []" if "dispatchers w d = Some sd" for d sd
    proof (rule ccontr)
      assume "m_callbacks sd \<noteq> []"
      then obtain k where "map_contains k (m_callbacks sd)"
        by (cases "m_callbacks sd") (auto simp: map_contains_def)
      with c that obtain sub where "subscriptions w k = Some sub" "m_specific_dispatcher sub = Some d"
        unfolding consistent_def by blast
      with idle show False by (auto simp: active_def)
    qed
    with wf(2) have "\<forall>d \<in> set (map snd (m_dispatchers ed)). \<exists>sd. dispatchers w d = Some sd \<and> m_callbacks sd = []"
      by (metis domD)
    from destroy_all_empty [OF wf(1) this] have
      "destroy_all (map snd (m_dispatchers ed)) w
         = Inr (w\<lparr>dispatchers := (\<lambda>d. if d \<in> set (map snd (m_dispatchers ed)) then None else dispatchers w d)\<rparr>)" .
    moreover have "(\<lambda>d. if d \<in> set (map snd (m_dispatchers ed)) then None else dispatchers w d) = Map.empty"
      using wf(2) by (auto simp: fun_eq_iff)
    ultimately show "EventDispatcher_destroy w = Inr (w\<lparr>dispatchers := Map.empty, event_dispatcher := None\<rparr>)"
      using ed by (simp add: EventDispatcher_destroy_def)
  }
qed

theorem teardown_with_handles_witness:
  "exec [Do (Subscribe 0 0 1 (Callback 1 []))] init = Inr one_subscriber
   \<and> subscriptions one_subscriber 1 = Some \<lparr>m_specific_dispatcher = Some 0\<rparr>
   \<and> active \<lparr>m_specific_dispatcher = Some 0\<rparr>
   \<and> EventDispatcher_destroy one_subscriber = Inl InvalidIterator
   \<and> exec [Do (Subscribe 0 0 1 (Callback 1 [])), Publish 0 0 0, Publish 0 0 1, Publish 0 0 2, Destroy 1] init
       = Inr after_scope
   \<and> event_dispatcher after_scope \<noteq> None
   \<and> subscriptions after_scope = Map.empty
   \<and> EventDispatcher_destroy after_scope = Inr (after_scope\<lparr>dispatchers := Map.empty, event_dispatcher := None\<rparr>)"
proof -
  have s: "subscriptions one_subscriber 1 = Some \<lparr>m_specific_dispatcher = Some 0\<rparr>"
    and a: "active \<lparr>m_specific_dispatcher = Some 0\<rparr>"
    by (simp_all add: one_subscriber_def active_def)
  have e: "event_dispatcher after_scope \<noteq> None" and n: "subscriptions after_scope = Map.empty"
    by (simp_all add: after_scope_def)
  then have idle: "\<forall>s sub. subscriptions after_scope s = Some sub \<longrightarrow> \<not> active sub"
    by simp
  from teardown_with_handles [OF one_subscriber_reached, where s = 1 and sub = "\<lparr>m_specific_dispatcher = Some 0\<rparr>"]
    teardown_with_handles [OF after_scope_reached] s a e n idle
    one_subscriber_reached after_scope_reached
  show ?thesis by simp
qed

section \<open>C3: destroying a dispatcher that still has subscribers\<close>

text \<open>
  C3. The claim: the destructor of a channel moves every handle still in the map to the
  cancelled state without changing the map while it iterates over it. The code: in every
  state a program can reach, the destructor of a \<^verbatim>\<open>SpecificDispatcher\<close> whose map is not
  empty calls \<^verbatim>\<open>cancel()\<close> on the first key, that call returns with the key erased from
  the very map the loop is iterating, and the loop's next step increments the iterator of
  the erased element.
\<close>

theorem destructor_erases_under_iterator:
  assumes "exec cs init = Inr w" and "dispatchers w d = Some sd" and "map_begin (m_callbacks sd) = Some k"
  shows "SpecificDispatcher_destroy d w = Inl InvalidIterator
       \<and> (\<exists>w1 sd1. cancel k w = Inr w1 \<and> dispatchers w1 d = Some sd1
             \<and> m_callbacks sd1 = map_erase k (m_callbacks sd))"
proof -
  have c: "consistent w" using assms(1) by (rule reachable_consistent)
  from assms(3) have ne: "m_callbacks sd \<noteq> []" and k: "map_contains k (m_callbacks sd)"
    by (auto simp: map_begin_def map_contains_def split: list.splits)
  from c assms(2) k obtain sub where "subscriptions w k = Some sub" "m_specific_dispatcher sub = Some d"
    unfolding consistent_def by blast
  with assms(2) have "\<exists>w1 sd1. cancel k w = Inr w1 \<and> dispatchers w1 d = Some sd1
             \<and> m_callbacks sd1 = map_erase k (m_callbacks sd)"
    by (simp add: cancel_def SpecificDispatcher_unsubscribe_def)
  with SpecificDispatcher_destroy_nonempty [OF c assms(2) ne] show ?thesis by simp
qed

theorem destructor_erases_under_iterator_witness:
  "exec [Do (Subscribe 0 0 1 (Callback 1 []))] init = Inr one_subscriber
   \<and> dispatchers one_subscriber 0 = Some \<lparr>m_callbacks = [(1, Callback 1 [])]\<rparr>
   \<and> map_begin (m_callbacks \<lparr>m_callbacks = [(1, Callback 1 [])]\<rparr>) = Some 1
   \<and> SpecificDispatcher_destroy 0 one_subscriber = Inl InvalidIterator"
proof -
  have d: "dispatchers one_subscriber 0 = Some \<lparr>m_callbacks = [(1, Callback 1 [])]\<rparr>"
    by (simp add: one_subscriber_def)
  have b: "map_begin (m_callbacks \<lparr>m_callbacks = [(1, Callback 1 [])]\<rparr>) = Some 1"
    by (simp add: map_begin_def)
  from destructor_erases_under_iterator [OF one_subscriber_reached d b] one_subscriber_reached d b
  show ?thesis by simp
qed

section \<open>C4: callbacks that change the subscriptions while they are dispatched\<close>

text \<open>
  C4, as the claim states it, fails: the loop of \<^verbatim>\<open>publish\<close> walks the live map. A
  callback (at handle 1) that subscribes another callback during the pass gets it invoked in
  the same pass when the new handle sorts above (2), and not when it sorts below (0); a
  callback (at handle 1) that cancels the subscription at handle 2, active when the pass
  began, keeps it from being invoked in this pass.
\<close>

theorem dispatch_walks_live_map:
  "observed (exec [Do (Subscribe 0 0 1 (Callback 1 [Subscribe 0 0 2 (Callback 2 [])])),
                   Publish 0 0 7] init) = Inr [(1, 1, 7), (2, 2, 7)]
   \<and> observed (exec [Do (Subscribe 0 0 1 (Callback 1 [Subscribe 0 0 0 (Callback 2 [])])),
                   Publish 0 0 7] init) = Inr [(1, 1, 7)]
   \<and> observed (exec [Do (Subscribe 0 0 1 (Callback 1 [Cancel 2])),
                   Do (Subscribe 0 0 2 (Callback 2 [])),
                   Publish 0 0 7] init) = Inr [(1, 1, 7)]"
  by (simp add: model_defs publish_from.simps)

text \<open>
  A callback that cancels its own subscription erases the element the loop's iterator
  points at; the loop then increments that iterator.
\<close>

lemma self_cancel_in_dispatch:
  "exec [Do (Subscribe 0 0 1 (Callback 1 [Cancel 1])), Publish 0 0 7] init = Inl InvalidIterator"
  by (simp add: model_defs publish_from.simps)

text \<open>
  C4, as the code has it. For the channel of a type in a state a program can reach:
  when none of its callbacks changes the subscriptions, a publish returns and invokes
  exactly the subscriptions in the map when it begins, each once, and changes nothing else.
  When one callback cancels another handle that is active, and the other callbacks are
  quiet, the publish returns too: it invokes the subscriptions before the callback, the
  callback, and the subscriptions after it without the cancelled one, and the handle is
  cancelled when it returns. When one callback subscribes a quiet callback at a fresh
  address, and the other callbacks are quiet, the publish returns and invokes the
  subscriptions in the map when it began and, if it is for the same type and its handle
  sorts after the running one, the new subscription; the new handle is active when it
  returns. When a callback cancels its own subscription, the loop increments the iterator
  of the element that the callback has erased: the publish does not return. This is a defect
  of the code, the one of the destructor's loop in C3.
  Whatever the callbacks do, a publish that returns has invoked subscriptions in ascending
  order of their handles (so none twice), and has invoked exactly once, with the event,
  every subscription that was in the map when it began and is still in the map when it
  returns. A handle that is cancelled when the publish returns, also one cancelled by a
  callback during the pass, gets no invocation from anything the program does afterwards.
\<close>

theorem dispatch_pass:
  assumes "exec cs init = Inr w" and "channel_of t w = Some d" and "dispatchers w d = Some sd"
  shows "((\<forall>e \<in> set (m_callbacks sd). quiet (snd e)) \<longrightarrow>
            EventDispatcher_publish t q ev w = Inr (w\<lparr>trace := trace w @ deliveries ev (m_callbacks sd)\<rparr>))
       \<and> (m_callbacks sd = pre @ (k, c1) # post \<longrightarrow> (\<forall>e \<in> set (pre @ post). quiet (snd e)) \<longrightarrow>
            (cb_body c1 = [Cancel h] \<longrightarrow> h \<noteq> k \<longrightarrow> subscriptions w h = Some sub \<longrightarrow> active sub \<longrightarrow>
               (\<exists>wr. EventDispatcher_publish t q ev w = Inr wr
                  \<and> trace wr = trace w @ deliveries ev (pre @ (k, c1) # map_erase h post)
                  \<and> cancelled h wr))
          \<and> (cb_body c1 = [Subscribe t2 q2 p c2] \<longrightarrow> quiet c2 \<longrightarrow> subscriptions w p = None \<longrightarrow>
               (channel_of t2 w \<noteq> None \<or> dispatchers w q2 = None) \<longrightarrow>
               (\<exists>wr. EventDispatcher_publish t q ev w = Inr wr
                  \<and> trace wr = trace w @ deliveries ev
                       (pre @ (k, c1) # (if t2 = t \<and> k < p then map_insert p c2 post else post))
                  \<and> (\<exists>sub. subscriptions wr p = Some sub \<and> active sub))))
       \<and> (m_callbacks sd = pre @ (k, c1) # post \<longrightarrow> (\<forall>e \<in> set pre. quiet (snd e)) \<longrightarrow>
            cb_body c1 = [Cancel k] \<longrightarrow> EventDispatcher_publish t q ev w = Inl InvalidIterator)
       \<and> (EventDispatcher_publish t q ev w = Inr w' \<longrightarrow>
            trace w' = trace w @ added w w' \<and> sorted_wrt (<) (map fst (added w w'))
          \<and> (entry d s c w \<longrightarrow> registered d s w' \<longrightarrow>
                invocations_of s (added w w') = [(s, cb_id c, ev)])
          \<and> (cancelled s' w' \<longrightarrow> exec cs' w' = Inr w2 \<longrightarrow> silent_since w' s' w2))"
proof (intro conjI impI)
  have c: "consistent w" using assms(1) by (rule reachable_consistent)
  have r: "registry_wf w" using assms(1) by (rule reachable_registry_wf)
  {
    assume "\<forall>e \<in> set (m_callbacks sd). quiet (snd e)"
    with assms(2) assms(3) consistent_sorted [OF c assms(3)]
    show "EventDispatcher_publish t q ev w = Inr (w\<lparr>trace := trace w @ deliveries ev (m_callbacks sd)\<rparr>)"
      by (rule EventDispatcher_publish_quiet)
  }
  {
    assume m: "m_callbacks sd = pre @ (k, c1) # post"
      and qs: "\<forall>e \<in> set (pre @ post). quiet (snd e)"
    {
      assume "cb_body c1 = [Cancel h]" "h \<noteq> k" "subscriptions w h = Some sub" "active sub"
      with c assms(2) assms(3) m qs
      show "\<exists>wr. EventDispatcher_publish t q ev w = Inr wr
                  \<and> trace wr = trace w @ deliveries ev (pre @ (k, c1) # map_erase h post)
                  \<and> cancelled h wr"
        by (intro publish_cancel_other)
    }
    {
      assume "cb_body c1 = [Subscribe t2 q2 p c2]" "quiet c2" "subscriptions w p = None"
        "channel_of t2 w \<noteq> None \<or> dispatchers w q2 = None"
      with c r assms(2) assms(3) m qs
      show "\<exists>wr. EventDispatcher_publish t q ev w = Inr wr
                  \<and> trace wr = trace w @ deliveries ev
                       (pre @ (k, c1) # (if t2 = t \<and> k < p then map_insert p c2 post else post))
                  \<and> (\<exists>sub. subscriptions wr p = Some sub \<and> active sub)"
        by (intro publish_subscribe_fresh)
    }
  }
  {
    assume "m_callbacks sd = pre @ (k, c1) # post" "\<forall>e \<in> set pre. quiet (snd e)"
      "cb_body c1 = [Cancel k]"
    with c assms(2) assms(3) show "EventDispatcher_publish t q ev w = Inl InvalidIterator"
      by (intro publish_cancel_self)
  }
  assume p: "EventDispatcher_publish t q ev w = Inr w'"
  note pass = publish_pass [OF c assms(2) p]
  show "trace w' = trace w @ added w w'" and "sorted_wrt (<) (map fst (added w w'))"
    using pass [of s c] by simp_all
  {
    assume "entry d s c w" "registered d s w'"
    with pass [of s c] show "invocations_of s (added w w') = [(s, cb_id c, ev)]" by simp
  }
  {
    assume n: "cancelled s' w'" and r: "exec cs' w' = Inr w2"
    have "consistent w'" using c p by (rule EventDispatcher_publish_consistent)
    with n have "muted w' s' w'"
      by (simp add: muted_def silent_since_refl)
    from exec_muted [OF this r] show "silent_since w' s' w2"
      by (simp add: muted_def)
  }
qed

theorem dispatch_pass_witness:
  "exec [Do (Subscribe 0 0 1 canceller), Do (Subscribe 0 0 2 (Callback 2 [])),
         Do (Subscribe 0 0 3 (Callback 3 []))] init = Inr busy
   \<and> channel_of 0 busy = Some 0
   \<and> dispatchers busy 0 = Some \<lparr>m_callbacks = [(1, canceller), (2, Callback 2 []), (3, Callback 3 [])]\<rparr>
   \<and> EventDispatcher_publish 0 0 7 busy = Inr after_pass
   \<and> entry 0 3 (Callback 3 []) busy \<and> registered 0 3 after_pass
   \<and> invocations_of 3 (added busy after_pass) = [(3, 3, 7)]
   \<and> cancelled 2 after_pass
   \<and> exec [Do (Cancel 1), Publish 0 0 8] after_pass = Inr after_second_pass
   \<and> silent_since after_pass 2 after_second_pass
   \<and> exec ([Do (Subscribe 0 0 1 canceller), Do (Subscribe 0 0 2 (Callback 2 [])),
          Do (Subscribe 0 0 3 (Callback 3 []))] @ Publish 0 0 7 # [Do (Cancel 1), Publish 0 0 8]) init
       = Inr after_second_pass
   \<and> channel_of 0 after_second_pass = Some 0
   \<and> dispatchers after_second_pass 0 = Some \<lparr>m_callbacks = [(3, Callback 3 [])]\<rparr>
   \<and> quiet (Callback 3 [])
   \<and> EventDispatcher_publish 0 0 9 after_second_pass = Inr after_third_pass
   \<and> entry 0 3 (Callback 3 []) after_second_pass \<and> registered 0 3 after_third_pass
   \<and> invocations_of 3 (added after_second_pass after_third_pass) = [(3, 3, 9)]
   \<and> cancelled 2 after_third_pass
   \<and> exec [Publish 0 0 10] after_third_pass = Inr after_fourth_pass
   \<and> silent_since after_third_pass 2 after_fourth_pass
   \<and> cb_body canceller = [Cancel 2] \<and> quiet (Callback 2 [])
   \<and> subscriptions busy 2 = Some \<lparr>m_specific_dispatcher = Some 0\<rparr>
   \<and> active \<lparr>m_specific_dispatcher = Some 0\<rparr>
   \<and> observed (EventDispatcher_publish 0 0 7 busy) = Inr [(1, 1, 7), (3, 3, 7)]
   \<and> exec [Do (Subscribe 0 0 1 recruiter), Do (Subscribe 0 0 3 (Callback 3 []))] init = Inr hiring
   \<and> channel_of 0 hiring = Some 0
   \<and> dispatchers hiring 0 = Some \<lparr>m_callbacks = [(1, recruiter), (3, Callback 3 [])]\<rparr>
   \<and> cb_body recruiter = [Subscribe 0 0 2 (Callback 2 [])]
   \<and> subscriptions hiring 2 = None
   \<and> observed (EventDispatcher_publish 0 0 7 hiring) = Inr [(1, 1, 7), (2, 2, 7), (3, 3, 7)]
   \<and> exec [Do (Subscribe 0 0 1 (Callback 1 [Cancel 1]))] init = Inr selfish
   \<and> channel_of 0 selfish = Some 0
   \<and> dispatchers selfish 0 = Some \<lparr>m_callbacks = [(1, Callback 1 [Cancel 1])]\<rparr>
   \<and> EventDispatcher_publish 0 0 7 selfish = Inl InvalidIterator"
proof -
  have a: "channel_of 0 busy = Some 0"
    and b: "dispatchers busy 0 = Some \<lparr>m_callbacks = [(1, canceller), (2, Callback 2 []), (3, Callback 3 [])]\<rparr>"
    and e: "entry 0 3 (Callback 3 []) busy"
    by (simp_all add: busy_def channel_of_def entry_def)
  have r: "registered 0 3 after_pass" and n: "cancelled 2 after_pass"
    by (simp_all add: after_pass_def registered_def map_contains_def cancelled_def)
  from dispatch_pass [OF busy_reached a b, where q = 0 and ev = 7 and w' = after_pass
      and s = 3 and c = "Callback 3 []" and s' = 2 and cs' = "[Do (Cancel 1), Publish 0 0 8]"
      and ?w2.0 = after_second_pass]
    busy_publish e r n after_pass_run
  have one: "invocations_of 3 (added busy after_pass) = [(3, 3, 7)]"
    "silent_since after_pass 2 after_second_pass"
    by simp_all
  have a': "channel_of 0 after_second_pass = Some 0"
    and b': "dispatchers after_second_pass 0 = Some \<lparr>m_callbacks = [(3, Callback 3 [])]\<rparr>"
    and e': "entry 0 3 (Callback 3 []) after_second_pass"
    and q': "\<forall>e \<in> set (m_callbacks \<lparr>m_callbacks = [(3, Callback 3 [])]\<rparr>). quiet (snd e)"
    by (simp_all add: after_second_pass_def channel_of_def entry_def quiet_def)
  have r': "registered 0 3 after_third_pass" and n': "cancelled 2 after_third_pass"
    by (simp_all add: after_third_pass_def after_second_pass_def registered_def map_contains_def
        cancelled_def)
  note full = dispatch_pass [OF after_second_pass_reached a' b', where q = 0 and ev = 9
      and w' = after_third_pass and s = 3 and c = "Callback 3 []" and s' = 2
      and cs' = "[Publish 0 0 10]" and ?w2.0 = after_fourth_pass]
  from full q' have p': "EventDispatcher_publish 0 0 9 after_second_pass = Inr after_third_pass"
    by (simp add: deliveries_def after_third_pass_def after_second_pass_def)
  from full p' e' r' n' after_third_pass_run
  have two: "invocations_of 3 (added after_second_pass after_third_pass) = [(3, 3, 9)]"
    "silent_since after_third_pass 2 after_fourth_pass"
    by simp_all
  have cb: "cb_body canceller = [Cancel 2]" and s2: "subscriptions busy 2 = Some \<lparr>m_specific_dispatcher = Some 0\<rparr>"
    and ac: "active \<lparr>m_specific_dispatcher = Some 0\<rparr>"
    and mb: "m_callbacks \<lparr>m_callbacks = [(1, canceller), (2, Callback 2 []), (3, Callback 3 [])]\<rparr>
               = [] @ (1, canceller) # [(2, Callback 2 []), (3, Callback 3 [])]"
    and qb: "\<forall>e \<in> set ([] @ [(2, Callback 2 []), (3, Callback 3 [])]). quiet (snd e)"
    by (simp_all add: canceller_def busy_def active_def quiet_def)
  from dispatch_pass [OF busy_reached a b, where pre = "[]" and k = 1 and ?c1.0 = canceller
      and post = "[(2, Callback 2 []), (3, Callback 3 [])]" and h = 2
      and sub = "\<lparr>m_specific_dispatcher = Some 0\<rparr>" and q = 0 and ev = 7]
    mb qb cb s2 ac
  have "\<exists>wr. EventDispatcher_publish 0 0 7 busy = Inr wr
      \<and> trace wr = trace busy @ deliveries 7
          ([] @ (1, canceller) # map_erase 2 [(2, Callback 2 []), (3, Callback 3 [])])
      \<and> cancelled 2 wr"
    by simp
  then have three: "observed (EventDispatcher_publish 0 0 7 busy) = Inr [(1, 1, 7), (3, 3, 7)]"
    by (auto simp: observed_def busy_def deliveries_def map_erase_def canceller_def)
  have ah: "channel_of 0 hiring = Some 0"
    and bh: "dispatchers hiring 0 = Some \<lparr>m_callbacks = [(1, recruiter), (3, Callback 3 [])]\<rparr>"
    and ch: "cb_body recruiter = [Subscribe 0 0 2 (Callback 2 [])]"
    and fh: "subscriptions hiring 2 = None"
    and mh: "m_callbacks \<lparr>m_callbacks = [(1, recruiter), (3, Callback 3 [])]\<rparr>
               = [] @ (1, recruiter) # [(3, Callback 3 [])]"
    and qh: "\<forall>e \<in> set ([] @ [(3, Callback 3 [])]). quiet (snd e)"
    and q2: "quiet (Callback 2 [])"
    by (simp_all add: hiring_def channel_of_def recruiter_def quiet_def)
  from dispatch_pass [OF hiring_reached ah bh, where pre = "[]" and k = 1 and ?c1.0 = recruiter
      and post = "[(3, Callback 3 [])]" and ?t2.0 = 0 and ?q2.0 = 0 and p = 2
      and ?c2.0 = "Callback 2 []" and q = 0 and ev = 7]
    mh qh ch q2 fh ah
  have "\<exists>wr. EventDispatcher_publish 0 0 7 hiring = Inr wr
      \<and> trace wr = trace hiring @ deliveries 7
          ([] @ (1, recruiter) # (if (0::nat) = 0 \<and> (1::nat) < 2
              then map_insert 2 (Callback 2 []) [(3, Callback 3 [])] else [(3, Callback 3 [])]))
      \<and> (\<exists>sub. subscriptions wr 2 = Some sub \<and> active sub)"
    by simp
  then have four: "observed (EventDispatcher_publish 0 0 7 hiring) = Inr [(1, 1, 7), (2, 2, 7), (3, 3, 7)]"
    by (auto simp: observed_def hiring_def deliveries_def recruiter_def)
  have as: "channel_of 0 selfish = Some 0"
    and bs: "dispatchers selfish 0 = Some \<lparr>m_callbacks = [(1, Callback 1 [Cancel 1])]\<rparr>"
    and ms: "m_callbacks \<lparr>m_callbacks = [(1, Callback 1 [Cancel 1])]\<rparr>
               = [] @ (1, Callback 1 [Cancel 1]) # []"
    and qs: "\<forall>e \<in> set ([] :: (addr \<times> callback) list). quiet (snd e)"
    and cs: "cb_body (Callback 1 [Cancel 1]) = [Cancel 1]"
    by (simp_all add: selfish_def channel_of_def)
  from dispatch_pass [OF selfish_reached as bs, where pre = "[]" and k = 1
      and ?c1.0 = "Callback 1 [Cancel 1]" and post = "[]" and q = 0 and ev = 7]
    ms qs cs
  have five: "EventDispatcher_publish 0 0 7 selfish = Inl InvalidIterator"
    by simp
  from one two busy_reached a b busy_publish e r n after_pass_run
    after_second_pass_reached a' b' p' e' r' n' after_third_pass_run
  have old: "exec [Do (Subscribe 0 0 1 canceller), Do (Subscribe 0 0 2 (Callback 2 [])),
         Do (Subscribe 0 0 3 (Callback 3 []))] init = Inr busy
   \<and> channel_of 0 busy = Some 0
   \<and> dispatchers busy 0 = Some \<lparr>m_callbacks = [(1, canceller), (2, Callback 2 []), (3, Callback 3 [])]\<rparr>
   \<and> EventDispatcher_publish 0 0 7 busy = Inr after_pass
   \<and> entry 0 3 (Callback 3 []) busy \<and> registered 0 3 after_pass
   \<and> invocations_of 3 (added busy after_pass) = [(3, 3, 7)]
   \<and> cancelled 2 after_pass
   \<and> exec [Do (Cancel 1), Publish 0 0 8] after_pass = Inr after_second_pass
   \<and> silent_since after_pass 2 after_second_pass
   \<and> exec ([Do (Subscribe 0 0 1 canceller), Do (Subscribe 0 0 2 (Callback 2 [])),
          Do (Subscribe 0 0 3 (Callback 3 []))] @ Publish 0 0 7 # [Do (Cancel 1), Publish 0 0 8]) init
       = Inr after_second_pass
   \<and> channel_of 0 after_second_pass = Some 0
   \<and> dispatchers after_second_pass 0 = Some \<lparr>m_callbacks = [(3, Callback 3 [])]\<rparr>
   \<and> quiet (Callback 3 [])
   \<and> EventDispatcher_publish 0 0 9 after_second_pass = Inr after_third_pass
   \<and> entry 0 3 (Callback 3 []) after_second_pass \<and> registered 0 3 after_third_pass
   \<and> invocations_of 3 (added after_second_pass after_third_pass) = [(3, 3, 9)]
   \<and> cancelled 2 after_third_pass
   \<and> exec [Publish 0 0 10] after_third_pass = Inr after_fourth_pass
   \<and> silent_since after_third_pass 2 after_fourth_pass"
    by (simp add: quiet_def)
  from old cb q2 s2 ac three hiring_reached ah bh ch fh four selfish_reached as bs five
  show ?thesis by (simp only: simp_thms)
qed

section \<open>C5: no delivery after cancel\<close>

text \<open>
  C5. In every state a program can reach: once \<^verbatim>\<open>cancel()\<close> on a handle has returned,
  whatever the program does next, no invocation added to the trace is one of that handle;
  and once a handle has been destroyed, a publish adds no invocation of that handle to the
  trace (as long as no new \<^verbatim>\<open>Subscription\<close> has been allocated at the address of the
  destroyed one by the time the publish returns).
\<close>

theorem no_delivery_after_cancel:
  assumes "exec cs init = Inr w"
  shows "(cancel s w = Inr w1 \<longrightarrow> exec cs' w1 = Inr w2 \<longrightarrow> silent_since w1 s w2)
       \<and> (Subscription_destroy s w = Inr w1 \<longrightarrow> EventDispatcher_publish t q ev w1 = Inr w2 \<longrightarrow>
            subscriptions w2 s = None \<longrightarrow> silent_since w1 s w2)"
proof (intro conjI impI)
  have c: "consistent w" using assms by (rule reachable_consistent)
  {
    assume a: "cancel s w = Inr w1" and b: "exec cs' w1 = Inr w2"
    have "muted w1 s w1"
      using cancel_consistent [OF c a] cancel_cancelled [OF a]
      by (simp add: muted_def silent_since_refl)
    from exec_muted [OF this b] show "silent_since w1 s w2"
      by (simp add: muted_def)
  }
  {
    assume a: "Subscription_destroy s w = Inr w1" and b: "EventDispatcher_publish t q ev w1 = Inr w2"
      and f: "subscriptions w2 s = None"
    from b obtain d wa where da: "EventDispatcher_dispatcher t q w1 = Inr (d, wa)"
      and db: "SpecificDispatcher_publish d ev wa = Inr w2"
      by (auto simp: EventDispatcher_publish_def split: sum.splits prod.splits)
    have c1: "consistent w1" using c a by (rule Subscription_destroy_consistent)
    have "unheard w1 s wa"
      using dispatcher_consistent [OF c1 da] dispatcher_frame [OF da]
      by (simp add: unheard_def silent_since_def)
    then have "unheard w1 s w2" using db
      by (rule SpecificDispatcher_publish_preserves [where P = "unheard w1 s", rotated 1])
        (rule invoke_unheard)
    with f show "silent_since w1 s w2"
      by (simp add: unheard_def)
  }
qed

theorem no_delivery_after_cancel_witness:
  "exec [Do (Subscribe 0 0 1 (Callback 1 [])), Publish 0 0 0, Publish 0 0 1, Publish 0 0 2] init
     = Inr three_deliveries
   \<and> cancel 1 three_deliveries = Inr after_cancel
   \<and> exec [Publish 0 0 3] after_cancel = Inr after_cancel
   \<and> silent_since after_cancel 1 after_cancel
   \<and> Subscription_destroy 1 three_deliveries = Inr after_scope
   \<and> EventDispatcher_publish 0 0 3 after_scope = Inr after_scope
   \<and> subscriptions after_scope 1 = None
   \<and> silent_since after_scope 1 after_scope
   \<and> trace after_scope = [(1, 1, 0), (1, 1, 1), (1, 1, 2)]"
proof -
  have a: "cancel 1 three_deliveries = Inr after_cancel"
    by (simp add: model_defs three_deliveries_def one_subscriber_def after_cancel_def)
  have b: "exec [Publish 0 0 3] after_cancel = Inr after_cancel"
    by (simp add: model_defs after_cancel_def)
  have c: "Subscription_destroy 1 three_deliveries = Inr after_scope"
    by (simp add: model_defs three_deliveries_def one_subscriber_def after_scope_def)
  have d: "EventDispatcher_publish 0 0 3 after_scope = Inr after_scope"
    by (simp add: model_defs after_scope_def)
  have e: "subscriptions after_scope 1 = None"
    by (simp add: after_scope_def)
  from no_delivery_after_cancel [OF three_deliveries_reached,
      where s = 1 and ?w1.0 = after_cancel and cs' = "[Publish 0 0 3]" and ?w2.0 = after_cancel]
    no_delivery_after_cancel [OF three_deliveries_reached,
      where s = 1 and ?w1.0 = after_scope and t = 0 and q = 0 and ev = 3 and ?w2.0 = after_scope]
    three_deliveries_reached a b c d e
  show ?thesis by (simp add: after_scope_def)
qed

section \<open>C6: single delivery\<close>

text \<open>
  C6. While the channel of a type holds exactly one subscription, whose callback leaves the
  subscriptions alone, a sequence of N publishes of that type returns, and what it adds to
  the trace is one invocation of that callback per publish, each with the event of its
  publish, in publish order. Nothing else in the store changes.
\<close>

theorem single_delivery:
  assumes "channel_of t w = Some d" and "dispatchers w d = Some sd"
    and "m_callbacks sd = [(s, c)]" and "quiet c"
  shows "exec (map (Publish t q) evs) w = Inr (w\<lparr>trace := trace w @ map (\<lambda>ev. (s, cb_id c, ev)) evs\<rparr>)"
  using assms(1) assms(2)
proof (induction evs arbitrary: w)
  case Nil
  then show ?case by simp
next
  case (Cons ev evs)
  let ?w1 = "w\<lparr>trace := trace w @ [(s, cb_id c, ev)]\<rparr>"
  have "EventDispatcher_publish t q ev w = Inr (w\<lparr>trace := trace w @ deliveries ev (m_callbacks sd)\<rparr>)"
    using Cons.prems assms(3) assms(4) by (intro EventDispatcher_publish_quiet) simp_all
  then have p: "EventDispatcher_publish t q ev w = Inr ?w1"
    by (simp add: assms(3) deliveries_def)
  have "channel_of t ?w1 = Some d" "dispatchers ?w1 d = Some sd"
    using Cons.prems by (simp_all add: channel_of_def)
  from Cons.IH [OF this] p show ?case by simp
qed

theorem single_delivery_witness:
  "channel_of 0 one_subscriber = Some 0
   \<and> dispatchers one_subscriber 0 = Some \<lparr>m_callbacks = [(1, Callback 1 [])]\<rparr>
   \<and> quiet (Callback 1 [])
   \<and> observed (exec (map (Publish 0 0) [0, 1, 2]) one_subscriber) = Inr [(1, 1, 0), (1, 1, 1), (1, 1, 2)]"
proof -
  have a: "channel_of 0 one_subscriber = Some 0"
    and b: "dispatchers one_subscriber 0 = Some \<lparr>m_callbacks = [(1, Callback 1 [])]\<rparr>"
    and c: "m_callbacks \<lparr>m_callbacks = [(1, Callback 1 [])]\<rparr> = [(1, Callback 1 [])]"
    and d: "quiet (Callback 1 [])"
    by (simp_all add: one_subscriber_def channel_of_def quiet_def)
  from single_delivery [OF a b c d, of 0 "[0, 1, 2]"] a b d show ?thesis
    by (simp add: observed_def one_subscriber_def)
qed

section \<open>C7: active handles\<close>

text \<open>
  C7. The claim: \<^verbatim>\<open>active()\<close> is true exactly when the handle has not been cancelled and
  the channel it is bound to still exists. The code: in every state a program can reach, a
  live handle points at a dispatcher exactly when that dispatcher exists and its map holds
  the handle's entry, so \<^verbatim>\<open>active()\<close> is true exactly when the handle is registered
  with a channel; a handle on which \<^verbatim>\<open>cancel()\<close> has returned reports inactive from
  then on, whatever the program does next; the handle a \<^verbatim>\<open>subscribe\<close> returns is
  active; and an active handle on which \<^verbatim>\<open>cancel()\<close> is not called stays as it is
  through everything the program does. A channel ceases to exist only when the
  \<^verbatim>\<open>EventDispatcher\<close> is destroyed. With a handle still active that destruction
  does not return, because the destructor of the channel erases the element under its own
  iterator: the handle never gets to report inactive, where the claim has \<^verbatim>\<open>active()\<close>
  return false. Where the \<^verbatim>\<open>EventDispatcher\<close> has been destroyed, which is with no
  handle active, no live handle is active.
\<close>

theorem active_handle:
  assumes "exec cs init = Inr w" and "subscriptions w s = Some sub"
  shows "(\<forall>d. m_specific_dispatcher sub = Some d \<longleftrightarrow> registered d s w)
       \<and> (active sub \<longleftrightarrow> (\<exists>d. registered d s w))
       \<and> (cancel s w = Inr w1 \<longrightarrow> exec cs' w1 = Inr w2 \<longrightarrow>
            (\<exists>sub2. subscriptions w2 s = Some sub2 \<and> \<not> active sub2))
       \<and> (EventDispatcher_subscribe t q p c w = Inr w3 \<longrightarrow>
            (\<exists>sub3. subscriptions w3 p = Some sub3 \<and> active sub3))
       \<and> (active sub \<longrightarrow> never_cancels s w \<longrightarrow> (\<forall>x \<in> set cs''. spares s x) \<longrightarrow>
            exec cs'' w = Inr w4 \<longrightarrow> subscriptions w4 s = Some sub)
       \<and> (active sub \<longrightarrow> EventDispatcher_destroy w = Inl InvalidIterator)
       \<and> (event_dispatcher w = None \<longrightarrow> \<not> active sub)"
proof (intro conjI impI)
  have c: "consistent w" using assms(1) by (rule reachable_consistent)
  have r: "registry_wf w" using assms(1) by (rule reachable_registry_wf)
  show bound: "\<forall>d. m_specific_dispatcher sub = Some d \<longleftrightarrow> registered d s w"
  proof (intro allI iffI)
    fix d assume "m_specific_dispatcher sub = Some d"
    with c assms(2) show "registered d s w"
      unfolding consistent_def registered_def by blast
  next
    fix d assume "registered d s w"
    then obtain sd where "dispatchers w d = Some sd" "map_contains s (m_callbacks sd)"
      by (auto simp: registered_def)
    with c obtain sub' where "subscriptions w s = Some sub'" "m_specific_dispatcher sub' = Some d"
      unfolding consistent_def by blast
    with assms(2) show "m_specific_dispatcher sub = Some d" by simp
  qed
  then show "active sub \<longleftrightarrow> (\<exists>d. registered d s w)"
    by (auto simp: active_def)
  {
    assume a: "cancel s w = Inr w1" and b: "exec cs' w1 = Inr w2"
    have "muted w1 s w1"
      using cancel_consistent [OF c a] cancel_cancelled [OF a]
      by (simp add: muted_def silent_since_refl)
    from exec_muted [OF this b] show "\<exists>sub2. subscriptions w2 s = Some sub2 \<and> \<not> active sub2"
      by (auto simp: muted_def cancelled_def active_def)
  }
  {
    assume "EventDispatcher_subscribe t q p c w = Inr w3"
    then show "\<exists>sub3. subscriptions w3 p = Some sub3 \<and> active sub3"
      by (auto simp: EventDispatcher_subscribe_def SpecificDispatcher_subscribe_def active_def
          split: sum.splits prod.splits option.splits if_splits)
  }
  {
    assume a: "active sub" and n: "never_cancels s w" and sp: "\<forall>x \<in> set cs''. spares s x"
      and e: "exec cs'' w = Inr w4"
    from c r have cr: "consistent w \<and> registry_wf w" ..
    from n assms(2) have ns: "never_cancels s w \<and> subscriptions w s = Some sub" ..
    from exec_spared [OF sp cr ns a e] show "subscriptions w4 s = Some sub" ..
  }
  {
    assume "active sub"
    with c r assms(2) show "EventDispatcher_destroy w = Inl InvalidIterator"
      by (rule teardown_faults)
  }
  {
    assume "event_dispatcher w = None"
    with r have "dispatchers w = Map.empty"
      by (auto simp: registry_wf_def)
    with bound show "\<not> active sub"
      by (auto simp: active_def registered_def)
  }
qed

theorem active_handle_witness:
  "exec [Do (Subscribe 0 0 1 (Callback 1 [])), Publish 0 0 0, Publish 0 0 1, Publish 0 0 2] init
     = Inr three_deliveries
   \<and> subscriptions three_deliveries 1 = Some \<lparr>m_specific_dispatcher = Some 0\<rparr>
   \<and> active \<lparr>m_specific_dispatcher = Some 0\<rparr>
   \<and> registered 0 1 three_deliveries
   \<and> cancel 1 three_deliveries = Inr after_cancel
   \<and> exec [Publish 0 0 3] after_cancel = Inr after_cancel
   \<and> subscriptions after_cancel 1 = Some \<lparr>m_specific_dispatcher = None\<rparr>
   \<and> \<not> active \<lparr>m_specific_dispatcher = None\<rparr>
   \<and> EventDispatcher_subscribe 0 0 2 (Callback 2 []) three_deliveries = Inr second_handle
   \<and> subscriptions second_handle 2 = Some \<lparr>m_specific_dispatcher = Some 0\<rparr>
   \<and> never_cancels 1 three_deliveries
   \<and> spares 1 (Publish 0 0 3) \<and> spares 1 (Do (Subscribe 0 0 2 (Callback 2 [])))
   \<and> spares 1 (Publish 0 0 4) \<and> spares 1 (Do (Cancel 2))
   \<and> exec [Publish 0 0 3, Do (Subscribe 0 0 2 (Callback 2 [])), Publish 0 0 4, Do (Cancel 2)]
        three_deliveries = Inr after_more
   \<and> subscriptions after_more 1 = Some \<lparr>m_specific_dispatcher = Some 0\<rparr>
   \<and> EventDispatcher_destroy three_deliveries = Inl InvalidIterator
   \<and> exec [Do (Subscribe 0 0 1 (Callback 1 [])), Do (Cancel 1), Teardown] init = Inr torn_down
   \<and> subscriptions torn_down 1 = Some \<lparr>m_specific_dispatcher = None\<rparr>
   \<and> event_dispatcher torn_down = None"
proof -
  have s: "subscriptions three_deliveries 1 = Some \<lparr>m_specific_dispatcher = Some 0\<rparr>"
    by (simp add: three_deliveries_def one_subscriber_def)
  have ac: "active \<lparr>m_specific_dispatcher = Some 0\<rparr>" by (simp add: active_def)
  have a: "cancel 1 three_deliveries = Inr after_cancel"
    by (simp add: model_defs three_deliveries_def one_subscriber_def after_cancel_def)
  have b: "exec [Publish 0 0 3] after_cancel = Inr after_cancel"
    by (simp add: model_defs after_cancel_def)
  have n: "EventDispatcher_subscribe 0 0 2 (Callback 2 []) three_deliveries = Inr second_handle"
    by (simp add: model_defs three_deliveries_def one_subscriber_def second_handle_def)
  have nc: "never_cancels 1 three_deliveries"
    by (simp add: never_cancels_def three_deliveries_def one_subscriber_def)
  have sp: "\<forall>x \<in> set [Publish 0 0 3, Do (Subscribe 0 0 2 (Callback 2 [])), Publish 0 0 4, Do (Cancel 2)].
              spares 1 x"
    by simp
  have st: "subscriptions torn_down 1 = Some \<lparr>m_specific_dispatcher = None\<rparr>"
    and et: "event_dispatcher torn_down = None"
    by (simp_all add: torn_down_def)
  note live = active_handle [OF three_deliveries_reached s, where ?w1.0 = after_cancel
      and cs' = "[Publish 0 0 3]" and ?w2.0 = after_cancel
      and t = 0 and q = 0 and p = 2 and c = "Callback 2 []" and ?w3.0 = second_handle
      and cs'' = "[Publish 0 0 3, Do (Subscribe 0 0 2 (Callback 2 [])), Publish 0 0 4, Do (Cancel 2)]"
      and ?w4.0 = after_more]
  from live have "\<forall>d. Some 0 = Some d \<longleftrightarrow> registered d 1 three_deliveries" by simp
  then have reg: "registered 0 1 three_deliveries" by blast
  from live a b have "\<exists>sub2. subscriptions after_cancel 1 = Some sub2 \<and> \<not> active sub2"
    by blast
  then have off: "subscriptions after_cancel 1 = Some \<lparr>m_specific_dispatcher = None\<rparr>"
    "\<not> active \<lparr>m_specific_dispatcher = None\<rparr>"
    by (auto simp: after_cancel_def)
  from live n have "\<exists>sub3. subscriptions second_handle 2 = Some sub3 \<and> active sub3"
    by blast
  then have new: "subscriptions second_handle 2 = Some \<lparr>m_specific_dispatcher = Some 0\<rparr>"
    by (auto simp: second_handle_def)
  from live ac nc sp after_more_run
  have kept: "subscriptions after_more 1 = Some \<lparr>m_specific_dispatcher = Some 0\<rparr>"
    by blast
  from live ac have bang: "EventDispatcher_destroy three_deliveries = Inl InvalidIterator"
    by blast
  from active_handle [OF torn_down_reached st] et
  have gone: "\<not> active \<lparr>m_specific_dispatcher = None\<rparr>"
    by blast
  from three_deliveries_reached s ac reg a b off new n nc kept bang after_more_run
    torn_down_reached st et gone
  show ?thesis by simp
qed

section \<open>C8: publishing a type that has no channel\<close>

text \<open>
  C8, as the code has it. Publishing a type that has no channel invokes no callback and is
  not an error, but it does change the registry: \<^verbatim>\<open>publish\<close> goes through the same
  \<^verbatim>\<open>dispatcher<EventType>()\<close> accessor as \<^verbatim>\<open>subscribe\<close>, which creates an empty channel
  for the type and inserts it into \<^verbatim>\<open>m_dispatchers\<close>. Nothing else changes.
\<close>

theorem publish_without_channel:
  assumes "event_dispatcher w = Some ed" and "map_of (m_dispatchers ed) t = None"
    and "dispatchers w q = None"
  shows "EventDispatcher_publish t q ev w =
           Inr (w\<lparr>dispatchers := (dispatchers w)(q \<mapsto> \<lparr>m_callbacks = []\<rparr>),
                  event_dispatcher := Some (ed\<lparr>m_dispatchers := map_insert t q (m_dispatchers ed)\<rparr>)\<rparr>)"
  using assms
  by (simp add: EventDispatcher_publish_def EventDispatcher_dispatcher_def
      SpecificDispatcher_publish_def map_begin_def)

theorem publish_without_channel_witness:
  "event_dispatcher init = Some \<lparr>m_dispatchers = []\<rparr>
   \<and> map_of (m_dispatchers \<lparr>m_dispatchers = []\<rparr>) 0 = None
   \<and> dispatchers init 0 = None
   \<and> observed (EventDispatcher_publish 0 0 7 init) = Inr []"
proof -
  have a: "event_dispatcher init = Some \<lparr>m_dispatchers = []\<rparr>"
    and b: "map_of (m_dispatchers \<lparr>m_dispatchers = []\<rparr>) (0::nat) = None"
    and c: "dispatchers init 0 = None"
    by (simp_all add: init_def)
  from publish_without_channel [OF a b c, of 7] a b c show ?thesis
    by (simp add: observed_def init_def)
qed

text \<open>
  C8, as the claim states it, fails on the empty registry: after the publish the registry
  holds a channel for the type, so its state is not the one before the call.
\<close>

theorem publish_changes_registry:
  "channel_of 0 init = None
   \<and> EventDispatcher_publish 0 0 7 init =
       Inr (init\<lparr>dispatchers := [0 \<mapsto> \<lparr>m_callbacks = []\<rparr>],
                 event_dispatcher := Some \<lparr>m_dispatchers = [(0, 0)]\<rparr>\<rparr>)
   \<and> channel_of 0 (init\<lparr>dispatchers := [0 \<mapsto> \<lparr>m_callbacks = []\<rparr>],
                 event_dispatcher := Some \<lparr>m_dispatchers = [(0, 0)]\<rparr>\<rparr>) = Some 0
   \<and> EventDispatcher_publish 0 0 7 init \<noteq> Inr init"
proof -
  have r: "EventDispatcher_publish 0 0 7 init =
       Inr (init\<lparr>dispatchers := [0 \<mapsto> \<lparr>m_callbacks = []\<rparr>],
                 event_dispatcher := Some \<lparr>m_dispatchers = [(0, 0)]\<rparr>\<rparr>)"
    by (simp add: model_defs)
  have "event_dispatcher (init\<lparr>dispatchers := [0 \<mapsto> \<lparr>m_callbacks = []\<rparr>],
                 event_dispatcher := Some \<lparr>m_dispatchers = [(0, 0)]\<rparr>\<rparr>) \<noteq> event_dispatcher init"
    by (simp add: init_def)
  then have "init\<lparr>dispatchers := [0 \<mapsto> \<lparr>m_callbacks = []\<rparr>],
                 event_dispatcher := Some \<lparr>m_dispatchers = [(0, 0)]\<rparr>\<rparr> \<noteq> init"
    by metis
  with r show ?thesis
    by (simp add: channel_of_def init_def)
qed

section \<open>C9: one channel per type\<close>

text \<open>
  C9. Whatever channel the first access to a type returns, created or found, the registry
  keeps it: after any further calls that subscribe, publish, cancel or drop handles, the
  type is still mapped to that channel, the channel is alive, and an access returns it
  without creating anything (the store is left as it was).
\<close>

theorem one_channel_per_type:
  assumes "exec cs init = Inr w"
    and "EventDispatcher_dispatcher t q w = Inr (d, w1)"
    and "exec cs' w1 = Inr w2"
    and "Teardown \<notin> set cs'"
  shows "channel_of t w2 = Some d \<and> dispatchers w2 d \<noteq> None
       \<and> EventDispatcher_dispatcher t q' w2 = Inr (d, w2)"
proof -
  have r: "registry_wf w1"
    using reachable_registry_wf [OF assms(1)] assms(2) by (rule dispatcher_registry_wf)
  have ch: "channel_of t w1 = Some d"
    using dispatcher_returns_channel [OF assms(2)] by simp
  then obtain ed where "event_dispatcher w1 = Some ed" "(t, d) \<in> set (m_dispatchers ed)"
    by (auto simp: channel_of_def split: option.splits dest: map_of_SomeD)
  with r have "d \<in> dom (dispatchers w1)"
    by (force simp: registry_wf_def)
  with ch have "holds_channel t d w1"
    by (auto simp: holds_channel_def)
  then have h: "holds_channel t d w2"
    using assms(3) assms(4) by (rule exec_holds_channel)
  then have "EventDispatcher_dispatcher t q' w2 = Inr (d, w2)"
    by (auto simp: holds_channel_def channel_of_def EventDispatcher_dispatcher_def split: option.splits)
  with h show ?thesis by (simp add: holds_channel_def)
qed

theorem one_channel_per_type_witness:
  "exec [] init = Inr init
   \<and> EventDispatcher_dispatcher 0 0 init = Inr (0, first_channel)
   \<and> exec [Do (Subscribe 0 5 1 (Callback 1 [])), Publish 0 6 7] first_channel = Inr one_delivery
   \<and> Teardown \<notin> set [Do (Subscribe 0 5 1 (Callback 1 [])), Publish 0 6 7]
   \<and> channel_of 0 one_delivery = Some 0
   \<and> EventDispatcher_dispatcher 0 9 one_delivery = Inr (0, one_delivery)"
proof -
  have a: "exec [] init = Inr init" by simp
  have b: "EventDispatcher_dispatcher 0 0 init = Inr (0, first_channel)"
    by (simp add: model_defs first_channel_def)
  have c: "exec [Do (Subscribe 0 5 1 (Callback 1 [])), Publish 0 6 7] first_channel = Inr one_delivery"
    by (simp add: model_defs first_channel_def one_delivery_def publish_from.simps)
  have d: "Teardown \<notin> set [Do (Subscribe 0 5 1 (Callback 1 [])), Publish 0 6 7]" by simp
  from one_channel_per_type [OF a b c d, of 9] a b c d show ?thesis by simp
qed

section \<open>C10: the same callback subscribed twice\<close>

text \<open>
  C10. In every state a program can reach, subscribing the same callback twice to one type
  gives two handles. With callbacks for the type that leave the subscriptions alone, a
  publish of the type returns and invokes the callback exactly once through each of the two
  handles. Cancelling the first handle returns, leaves the second active, and the next
  publish invokes the callback through the second handle once and through the first not at
  all.
\<close>

theorem same_callback_twice:
  assumes "exec cs init = Inr w"
    and "EventDispatcher_subscribe t q1 p1 c w = Inr w1"
    and "EventDispatcher_subscribe t q2 p2 c w1 = Inr w2"
    and "channel_of t w2 = Some d" and "dispatchers w2 d = Some sd"
    and "\<forall>e \<in> set (m_callbacks sd). quiet (snd e)"
  shows "p1 \<noteq> p2
       \<and> (\<exists>tr. EventDispatcher_publish t q3 ev w2 = Inr (w2\<lparr>trace := trace w2 @ tr\<rparr>)
              \<and> invocations_of p1 tr = [(p1, cb_id c, ev)]
              \<and> invocations_of p2 tr = [(p2, cb_id c, ev)])
       \<and> (\<exists>w3 sub2 tr. cancel p1 w2 = Inr w3
              \<and> subscriptions w3 p2 = Some sub2 \<and> active sub2
              \<and> EventDispatcher_publish t q3 ev' w3 = Inr (w3\<lparr>trace := trace w3 @ tr\<rparr>)
              \<and> invocations_of p1 tr = []
              \<and> invocations_of p2 tr = [(p2, cb_id c, ev')])"
proof -
  have c0: "consistent w" using assms(1) by (rule reachable_consistent)
  have c1: "consistent w1" using c0 assms(2) by (rule EventDispatcher_subscribe_consistent)
  have c2: "consistent w2" using c1 assms(3) by (rule EventDispatcher_subscribe_consistent)
  from subscribe_registers [OF c0 assms(2)] obtain d1 sd1 where
    r1: "channel_of t w1 = Some d1" "dispatchers w1 d1 = Some sd1" "map_of (m_callbacks sd1) p1 = Some c"
      "subscriptions w1 p1 \<noteq> None"
    by auto
  from subscribe_registers [OF c1 assms(3)] assms(4) assms(5) obtain sub2 where
    r2: "map_of (m_callbacks sd) p2 = Some c" "subscriptions w2 p2 = Some sub2"
      "m_specific_dispatcher sub2 = Some d"
    by auto
  have ne: "p1 \<noteq> p2"
    using subscribe_fresh [OF assms(3)] r1(4) by auto
  have h1: "holds_channel t d1 w1"
    using r1 by (simp add: holds_channel_def)
  have "do_action (Subscribe t q2 p2 c) w1 = Inr w2"
    using assms(3) by simp
  with h1 have "holds_channel t d1 w2"
    by (rule do_action_holds_channel)
  with assms(4) have d1: "d1 = d"
    by (simp add: holds_channel_def)
  from subscribe_keeps_entry [OF assms(3) r1(2) r1(3) ne] assms(5) d1
  have e1: "map_of (m_callbacks sd) p1 = Some c" by auto
  have srt: "sorted_wrt (<) (map fst (m_callbacks sd))"
    using c2 assms(5) by (rule consistent_sorted)
  then have dst: "distinct (map fst (m_callbacks sd))"
    by (simp add: strict_sorted_iff)
  have pub: "EventDispatcher_publish t q3 ev w2 = Inr (w2\<lparr>trace := trace w2 @ deliveries ev (m_callbacks sd)\<rparr>)"
    using assms(4) assms(5) srt assms(6) by (rule EventDispatcher_publish_quiet)
  have first: "\<exists>tr. EventDispatcher_publish t q3 ev w2 = Inr (w2\<lparr>trace := trace w2 @ tr\<rparr>)
              \<and> invocations_of p1 tr = [(p1, cb_id c, ev)]
              \<and> invocations_of p2 tr = [(p2, cb_id c, ev)]"
  proof (intro exI conjI)
    show "EventDispatcher_publish t q3 ev w2 = Inr (w2\<lparr>trace := trace w2 @ deliveries ev (m_callbacks sd)\<rparr>)"
      by (rule pub)
    show "invocations_of p1 (deliveries ev (m_callbacks sd)) = [(p1, cb_id c, ev)]"
      using dst e1 by (rule invocations_of_deliveries)
    show "invocations_of p2 (deliveries ev (m_callbacks sd)) = [(p2, cb_id c, ev)]"
      using dst r2(1) by (rule invocations_of_deliveries)
  qed
  have "map_contains p1 (m_callbacks sd)"
    using e1 by (force simp: map_contains_def dest: map_of_SomeD)
  from cancel_registered [OF c2 assms(5) this] obtain sub1 where
    k: "cancel p1 w2 = Inr (w2\<lparr>dispatchers := (dispatchers w2)(d \<mapsto> sd\<lparr>m_callbacks := map_erase p1 (m_callbacks sd)\<rparr>),
                        subscriptions := (subscriptions w2)(p1 \<mapsto> sub1\<lparr>m_specific_dispatcher := None\<rparr>)\<rparr>)"
      (is "_ = Inr ?w3")
    by (elim exE conjE)
  let ?m = "map_erase p1 (m_callbacks sd)"
  have s3: "subscriptions ?w3 p2 = Some sub2" "active sub2"
    using r2 ne by (simp_all add: active_def)
  have "channel_of t ?w3 = Some d"
    using assms(4) by (simp add: channel_of_def)
  moreover have "dispatchers ?w3 d = Some (sd\<lparr>m_callbacks := ?m\<rparr>)"
    by simp
  moreover have srt3: "sorted_wrt (<) (map fst (m_callbacks (sd\<lparr>m_callbacks := ?m\<rparr>)))"
    using srt by (simp add: sorted_map_erase)
  moreover have "\<forall>e \<in> set (m_callbacks (sd\<lparr>m_callbacks := ?m\<rparr>)). quiet (snd e)"
    using assms(6) by (simp add: map_erase_def)
  ultimately have "EventDispatcher_publish t q3 ev' ?w3 =
      Inr (?w3\<lparr>trace := trace ?w3 @ deliveries ev' (m_callbacks (sd\<lparr>m_callbacks := ?m\<rparr>))\<rparr>)"
    by (rule EventDispatcher_publish_quiet)
  then have pub3: "EventDispatcher_publish t q3 ev' ?w3 = Inr (?w3\<lparr>trace := trace ?w3 @ deliveries ev' ?m\<rparr>)"
    by simp
  have dst3: "distinct (map fst ?m)"
    using srt3 by (simp add: strict_sorted_iff)
  have second: "\<exists>w3 sub2 tr. cancel p1 w2 = Inr w3
              \<and> subscriptions w3 p2 = Some sub2 \<and> active sub2
              \<and> EventDispatcher_publish t q3 ev' w3 = Inr (w3\<lparr>trace := trace w3 @ tr\<rparr>)
              \<and> invocations_of p1 tr = []
              \<and> invocations_of p2 tr = [(p2, cb_id c, ev')]"
  proof (intro exI conjI)
    show "cancel p1 w2 = Inr ?w3" by (rule k)
    show "subscriptions ?w3 p2 = Some sub2" by (rule s3(1))
    show "active sub2" by (rule s3(2))
    show "EventDispatcher_publish t q3 ev' ?w3 = Inr (?w3\<lparr>trace := trace ?w3 @ deliveries ev' ?m\<rparr>)"
      by (rule pub3)
    show "invocations_of p1 (deliveries ev' ?m) = []"
      by (rule invocations_of_absent) (simp add: map_of_map_erase)
    show "invocations_of p2 (deliveries ev' ?m) = [(p2, cb_id c, ev')]"
      using dst3 by (rule invocations_of_deliveries) (simp add: map_of_map_erase r2(1) ne [symmetric])
  qed
  show ?thesis
    by (rule conjI [OF ne conjI [OF first second]])
qed

theorem same_callback_twice_witness:
  "exec [] init = Inr init
   \<and> EventDispatcher_subscribe 0 0 1 (Callback 1 []) init = Inr one_subscriber
   \<and> EventDispatcher_subscribe 0 0 2 (Callback 1 []) one_subscriber = Inr twice_subscribed
   \<and> channel_of 0 twice_subscribed = Some 0
   \<and> dispatchers twice_subscribed 0 = Some \<lparr>m_callbacks = [(1, Callback 1 []), (2, Callback 1 [])]\<rparr>
   \<and> quiet (Callback 1 [])
   \<and> observed (exec [Publish 0 0 7, Do (Cancel 1), Publish 0 0 8] twice_subscribed)
       = Inr [(1, 1, 7), (2, 1, 7), (2, 1, 8)]"
proof -
  have a: "exec [] init = Inr init" by simp
  have b: "EventDispatcher_subscribe 0 0 1 (Callback 1 []) init = Inr one_subscriber"
    by (simp add: model_defs one_subscriber_def)
  have c: "EventDispatcher_subscribe 0 0 2 (Callback 1 []) one_subscriber = Inr twice_subscribed"
    by (simp add: model_defs one_subscriber_def twice_subscribed_def)
  have d: "channel_of 0 twice_subscribed = Some 0"
    and e: "dispatchers twice_subscribed 0 = Some \<lparr>m_callbacks = [(1, Callback 1 []), (2, Callback 1 [])]\<rparr>"
    and f: "\<forall>e \<in> set (m_callbacks \<lparr>m_callbacks = [(1, Callback 1 []), (2, Callback 1 [])]\<rparr>). quiet (snd e)"
    by (simp_all add: twice_subscribed_def channel_of_def quiet_def)
  have g: "observed (exec [Publish 0 0 7, Do (Cancel 1), Publish 0 0 8] twice_subscribed)
       = Inr [(1, 1, 7), (2, 1, 7), (2, 1, 8)]"
    by (simp add: model_defs twice_subscribed_def publish_from.simps)
  from same_callback_twice [OF a b c d e f] a b c d e g show ?thesis
    by (simp add: quiet_def)
qed

end
